theory Spec2Isabelle
  imports Main
begin

section \<open>Python strings and the Unicode tables\<close>

text \<open>
  A Python \<open>str\<close> is a sequence of Unicode code points, so a character is a natural
  number and \<open>len\<close> is \<open>length\<close>. ASCII text is written \<open>asc ''...''\<close>.
\<close>

type_synonym uchar = nat
type_synonym ustring = "nat list"

abbreviation asc :: "string \<Rightarrow> ustring" where
  "asc w \<equiv> map of_char w"

text \<open>
  The character classes \<open>\s\<close>, \<open>\w\<close>, \<open>\d\<close> and \<open>str.lower\<close> read the Unicode
  character database of the Python runtime. Their behaviour on ASCII is written out below;
  beyond ASCII the tables are a parameter \<open>U\<close>, so that a theorem stated for every \<open>U\<close>
  holds for the tables of any Python version. \<open>uc_lower U s i\<close> is the lower-case
  expansion of the non-ASCII character at index \<open>i\<close> of \<open>s\<close>: it may be several
  characters long and may depend on the neighbours (final sigma).
\<close>

record ucd =
  uc_space :: "uchar \<Rightarrow> bool"
  uc_alnum :: "uchar \<Rightarrow> bool"
  uc_decimal :: "uchar \<Rightarrow> nat option"
  uc_lower :: "ustring \<Rightarrow> nat \<Rightarrow> ustring"

definition py_isspace :: "ucd \<Rightarrow> uchar \<Rightarrow> bool" where
  "py_isspace U c =
     (if c < 128 then (9 \<le> c \<and> c \<le> 13) \<or> (28 \<le> c \<and> c \<le> 32) else uc_space U c)"

definition py_isalnum :: "ucd \<Rightarrow> uchar \<Rightarrow> bool" where
  "py_isalnum U c =
     (if c < 128 then (48 \<le> c \<and> c \<le> 57) \<or> (65 \<le> c \<and> c \<le> 90) \<or> (97 \<le> c \<and> c \<le> 122)
      else uc_alnum U c)"

definition py_digit :: "ucd \<Rightarrow> uchar \<Rightarrow> nat option" where
  "py_digit U c =
     (if c < 128 then (if 48 \<le> c \<and> c \<le> 57 then Some (c - 48) else None) else uc_decimal U c)"

definition lower_char :: "ucd \<Rightarrow> ustring \<Rightarrow> nat \<Rightarrow> ustring" where
  "lower_char U s i =
     (let c = s ! i in
      if c < 128 then (if 65 \<le> c \<and> c \<le> 90 then [c + 32] else [c]) else uc_lower U s i)"

definition py_lower :: "ucd \<Rightarrow> ustring \<Rightarrow> ustring" where
  "py_lower U s = concat (map (lower_char U s) [0..<length s])"

fun lstrip :: "ucd \<Rightarrow> ustring \<Rightarrow> ustring" where
  "lstrip U [] = []"
| "lstrip U (c # s) = (if py_isspace U c then lstrip U s else c # s)"

definition py_strip :: "ucd \<Rightarrow> ustring \<Rightarrow> ustring" where
  "py_strip U s = rev (lstrip U (rev (lstrip U s)))"

text \<open>The slice \<open>s[a:b]\<close> for \<open>0 \<le> a\<close> and \<open>0 \<le> b\<close>.\<close>

definition slice :: "ustring \<Rightarrow> nat \<Rightarrow> nat \<Rightarrow> ustring" where
  "slice s a b = take (b - a) (drop a s)"


section \<open>The regular expressions of module \<open>re\<close>\<close>

text \<open>
  The patterns of the program use character classes, literals, sequence, alternation,
  greedy and lazy repetition of a character class, capture groups and the line anchor of
  \<open>re.MULTILINE\<close>. \<open>Star True P\<close> is the greedy \<open>[P]*\<close>, \<open>Star False P\<close> the lazy
  \<open>[P]*?\<close>.
\<close>

datatype re =
    Eps
  | Cls "uchar \<Rightarrow> bool"
  | Seq re re
  | Alt re re
  | Star bool "uchar \<Rightarrow> bool"
  | Grp nat re
  | Bol

fun lit :: "ustring \<Rightarrow> re" where
  "lit [] = Eps"
| "lit (c # w) = Seq (Cls (\<lambda>x. x = c)) (lit w)"

fun seq :: "re list \<Rightarrow> re" where
  "seq [] = Eps"
| "seq (r # rs) = Seq r (seq rs)"

definition plus_re :: "bool \<Rightarrow> (uchar \<Rightarrow> bool) \<Rightarrow> re" where
  "plus_re greedy P = Seq (Cls P) (Star greedy P)"

definition opt :: "re \<Rightarrow> re" where
  "opt r = Alt r Eps"

definition any_char :: "uchar \<Rightarrow> bool" where
  "any_char c = True"

definition dot :: "uchar \<Rightarrow> bool" where
  "dot c = (c \<noteq> 10)"

text \<open>
  A cursor is a position in the subject string: the text before it, reversed, and the
  text after it. The matcher is the backtracking matcher of \<open>re\<close>: it lists the ways a
  pattern can match at a cursor in the order in which backtracking tries them, so the
  first entry is the match that \<open>re\<close> reports.
\<close>

type_synonym cursor = "ustring \<times> ustring"
type_synonym groups = "nat \<Rightarrow> ustring option"

definition between :: "cursor \<Rightarrow> cursor \<Rightarrow> ustring" where
  "between cur cur' = rev (take (length (fst cur') - length (fst cur)) (fst cur'))"

fun star_ends :: "bool \<Rightarrow> (uchar \<Rightarrow> bool) \<Rightarrow> cursor \<Rightarrow> cursor list" where
  "star_ends greedy P (b, []) = [(b, [])]"
| "star_ends greedy P (b, c # s) =
     (if P c then
        (if greedy then star_ends greedy P (c # b, s) @ [(b, c # s)]
         else (b, c # s) # star_ends greedy P (c # b, s))
      else [(b, c # s)])"

fun ms :: "re \<Rightarrow> cursor \<times> groups \<Rightarrow> (cursor \<times> groups) list" where
  "ms Eps st = [st]"
| "ms (Cls P) ((b, s), g) =
     (case s of [] \<Rightarrow> [] | c # s' \<Rightarrow> if P c then [((c # b, s'), g)] else [])"
| "ms (Seq r1 r2) st = concat (map (ms r2) (ms r1 st))"
| "ms (Alt r1 r2) st = ms r1 st @ ms r2 st"
| "ms (Star greedy P) (cur, g) = map (\<lambda>cur'. (cur', g)) (star_ends greedy P cur)"
| "ms (Grp k r) (cur, g) =
     map (\<lambda>(cur', g'). (cur', g'(k \<mapsto> between cur cur'))) (ms r (cur, g))"
| "ms Bol ((b, s), g) = (if b = [] \<or> hd b = 10 then [((b, s), g)] else [])"

text \<open>
  A search that follows an empty match must advance: at the first position it tries, an
  empty match is refused and backtracking goes on to the next way.
\<close>

definition first_match :: "re \<Rightarrow> bool \<Rightarrow> cursor \<Rightarrow> (cursor \<times> groups) option" where
  "first_match r must cur =
     List.find (\<lambda>(cur', g). \<not> (must \<and> snd cur' = snd cur)) (ms r (cur, Map.empty))"

record py_match =
  m_start :: nat
  m_end :: nat
  m_group0 :: ustring
  m_groups :: groups

definition mk_match :: "cursor \<Rightarrow> cursor \<times> groups \<Rightarrow> py_match" where
  "mk_match cur res =
     \<lparr> m_start = length (fst cur), m_end = length (fst (fst res)),
       m_group0 = between cur (fst res), m_groups = snd res \<rparr>"


text \<open>Every way of matching moves the cursor forward over part of the text after it.\<close>

definition reach :: "cursor \<Rightarrow> cursor \<Rightarrow> bool" where
  "reach cur cur' = (\<exists>m. snd cur = m @ snd cur' \<and> fst cur' = rev m @ fst cur)"

lemma reach_refl: "reach cur cur"
  by (simp add: reach_def)

lemma reach_trans: "reach a b \<Longrightarrow> reach b c \<Longrightarrow> reach a c"
  by (auto simp: reach_def)

lemma reach_step: "reach (c # b, s) cur' \<Longrightarrow> reach (b, c # s) cur'"
  by (auto simp: reach_def)

lemma reach_length: "reach cur cur' \<Longrightarrow> length (snd cur') \<le> length (snd cur)"
  by (auto simp: reach_def)

lemma reach_same: "reach cur cur' \<Longrightarrow> length (snd cur') = length (snd cur) \<Longrightarrow> cur' = cur"
  by (cases cur, cases cur') (auto simp: reach_def)

lemma reach_between: "reach cur cur' \<Longrightarrow> snd cur = between cur cur' @ snd cur'"
  by (auto simp: reach_def between_def)

lemma reach_fst: "reach cur cur' \<Longrightarrow> fst cur' = rev (between cur cur') @ fst cur"
  by (auto simp: reach_def between_def)

lemma star_ends_reach: "cur' \<in> set (star_ends greedy P cur) \<Longrightarrow> reach cur cur'"
proof (induction greedy P cur rule: star_ends.induct)
  case (1 greedy P b)
  then show ?case by (simp add: reach_refl)
next
  case (2 greedy P b c s)
  then show ?case
    by (auto simp: reach_refl intro: reach_step split: if_splits)
qed

lemma ms_reach: "(cur', g') \<in> set (ms r (cur, g)) \<Longrightarrow> reach cur cur'"
proof (induction r arbitrary: cur g cur' g')
  case Eps
  then show ?case by (simp add: reach_refl)
next
  case (Cls P)
  obtain b s where cur: "cur = (b, s)" by (cases cur)
  show ?case
  proof (cases s)
    case Nil
    with Cls cur show ?thesis by simp
  next
    case (Cons c s')
    with Cls cur show ?thesis by (simp add: reach_def split: if_splits)
  qed
next
  case (Seq r1 r2)
  from Seq.prems obtain st where st: "st \<in> set (ms r1 (cur, g))" "(cur', g') \<in> set (ms r2 st)"
    by auto
  obtain cur1 g1 where "st = (cur1, g1)" by (cases st)
  with st Seq.IH show ?case by (blast intro: reach_trans)
next
  case (Alt r1 r2)
  from Alt.prems
  have "(cur', g') \<in> set (ms r1 (cur, g)) \<or> (cur', g') \<in> set (ms r2 (cur, g))"
    by simp
  with Alt.IH show ?case by blast
next
  case (Star greedy P)
  then show ?case by (auto dest: star_ends_reach)
next
  case (Grp k r)
  from Grp.prems obtain g1 where "(cur', g1) \<in> set (ms r (cur, g))" by auto
  with Grp.IH show ?case by blast
next
  case Bol
  obtain b s where "cur = (b, s)" by (cases cur)
  with Bol show ?case by (simp add: reach_refl split: if_splits)
qed

lemma first_match_reach: "first_match r must cur = Some res \<Longrightarrow> reach cur (fst res)"
  unfolding first_match_def
  by (cases res) (auto simp: find_Some_iff dest!: nth_mem intro: ms_reach)

lemma first_match_must: "first_match r True cur = Some res \<Longrightarrow> snd (fst res) \<noteq> snd cur"
  unfolding first_match_def by (cases res) (auto simp: find_Some_iff)

lemma first_match_measure:
  assumes "first_match r must cur = Some res"
  shows "2 * length (snd (fst res)) + (if snd (fst res) = snd cur then 0 else 1)
           < 2 * length (snd cur) + (if must then 0 else (1::nat))"
proof -
  have r: "reach cur (fst res)" using assms by (rule first_match_reach)
  have shorter: "length (snd (fst res)) < length (snd cur)" if "snd (fst res) \<noteq> snd cur"
    using that reach_length[OF r] reach_same[OF r]
    by (cases "length (snd (fst res)) = length (snd cur)") auto
  show ?thesis
  proof (cases must)
    case True
    with assms have "snd (fst res) \<noteq> snd cur" by (auto dest: first_match_must)
    then show ?thesis using shorter by auto
  next
    case False
    then show ?thesis using shorter by (cases "snd (fst res) = snd cur") auto
  qed
qed

text \<open>
  \<open>finditer\<close>: the matches from left to right. After a match the search goes on at its
  end; where no match starts, it moves one character on.
\<close>

function scan :: "re \<Rightarrow> bool \<Rightarrow> cursor \<Rightarrow> py_match list" where
  "scan r must cur =
     (case first_match r must cur of
        Some res \<Rightarrow> mk_match cur res # scan r (snd (fst res) = snd cur) (fst res)
      | None \<Rightarrow> (case cur of (b, []) \<Rightarrow> [] | (b, c # s) \<Rightarrow> scan r False (c # b, s)))"
  by pat_completeness auto
termination
proof (relation "measure (\<lambda>(r, must, cur). 2 * length (snd cur) + (if must then 0 else 1))", goal_cases)
  case 1
  show ?case by simp
next
  case (2 r must cur b s c s')
  then show ?case by auto
next
  case (3 r must cur res)
  then show ?case using first_match_measure[of r must cur res] by simp
qed

declare scan.simps [simp del]

definition finditer :: "re \<Rightarrow> ustring \<Rightarrow> py_match list" where
  "finditer r s = scan r False ([], s)"


section \<open>The code-block-aware rewriter\<close>

definition code_block_pattern :: "bool \<Rightarrow> re" where
  "code_block_pattern avoid_inline_code =
     (if avoid_inline_code then
        Grp 1 (Alt (seq [lit (asc ''~~~''), Star False any_char, lit (asc ''~~~'')])
              (Alt (seq [lit (asc ''```''), Star False any_char, lit (asc ''```'')])
                   (seq [lit (asc ''`''), Star True (\<lambda>c. c \<noteq> 96), lit (asc ''`'')])))
      else
        Grp 1 (Alt (seq [lit (asc ''~~~''), Star False any_char, lit (asc ''~~~'')])
                   (seq [lit (asc ''```''), Star False any_char, lit (asc ''```'')])))"

text \<open>The body of the \<open>for\<close> loop over the matches; the state is \<open>(parts, last_end)\<close>.\<close>

fun avoid_loop ::
  "ustring \<Rightarrow> (ustring \<Rightarrow> ustring) \<Rightarrow> py_match list \<Rightarrow> ustring list \<times> nat \<Rightarrow> ustring list \<times> nat"
where
  "avoid_loop content process_func [] st = st"
| "avoid_loop content process_func (m # matches) (parts, last_end) =
     (let parts1 = (if m_start m > last_end
                    then parts @ [process_func (slice content last_end (m_start m))]
                    else parts);
          parts2 = parts1 @ [m_group0 m]
      in avoid_loop content process_func matches (parts2, m_end m))"

definition avoid_process_code_blocks ::
  "ustring \<Rightarrow> (ustring \<Rightarrow> ustring) \<Rightarrow> bool \<Rightarrow> ustring"
where
  "avoid_process_code_blocks content process_func avoid_inline_code =
     (let matches = finditer (code_block_pattern avoid_inline_code) content;
          (parts, last_end) = avoid_loop content process_func matches ([], 0);
          parts' = (if last_end < length content
                    then parts @ [process_func (slice content last_end (length content))]
                    else parts)
      in concat parts')"

text \<open>
  The specification's spans: the document cut into code spans (the matches) and the
  non-empty stretches of prose between them, in order.
\<close>

datatype span = Prose ustring | Code ustring

fun span_text :: "span \<Rightarrow> ustring" where
  "span_text (Prose t) = t"
| "span_text (Code t) = t"

definition prose :: "ustring \<Rightarrow> span list" where
  "prose t = (if t = [] then [] else [Prose t])"

function spans_from :: "re \<Rightarrow> bool \<Rightarrow> cursor \<Rightarrow> ustring \<Rightarrow> span list" where
  "spans_from r must cur gap =
     (case first_match r must cur of
        Some res \<Rightarrow>
          prose (rev gap) @ Code (between cur (fst res))
            # spans_from r (snd (fst res) = snd cur) (fst res) []
      | None \<Rightarrow>
          (case cur of
             (b, []) \<Rightarrow> prose (rev gap)
           | (b, c # s) \<Rightarrow> spans_from r False (c # b, s) (c # gap)))"
  by pat_completeness auto
termination
proof (relation "measure (\<lambda>(r, must, cur, gap). 2 * length (snd cur) + (if must then 0 else 1))", goal_cases)
  case 1
  show ?case by simp
next
  case (2 r must cur gap b s c s')
  then show ?case by auto
next
  case (3 r must cur gap res)
  then show ?case using first_match_measure[of r must cur res] by simp
qed

declare spans_from.simps [simp del]

definition spec_spans :: "bool \<Rightarrow> ustring \<Rightarrow> span list" where
  "spec_spans avoid_inline_code s = spans_from (code_block_pattern avoid_inline_code) False ([], s) []"

fun render :: "(ustring \<Rightarrow> ustring) \<Rightarrow> span \<Rightarrow> ustring" where
  "render f (Prose t) = f t"
| "render f (Code t) = t"

definition spec_rewrite :: "(ustring \<Rightarrow> ustring) \<Rightarrow> span list \<Rightarrow> ustring" where
  "spec_rewrite f sps = concat (map (render f) sps)"


definition finish :: "ustring \<Rightarrow> (ustring \<Rightarrow> ustring) \<Rightarrow> ustring list \<times> nat \<Rightarrow> ustring" where
  "finish content f st =
     (case st of (parts, last_end) \<Rightarrow>
        concat (if last_end < length content
                then parts @ [f (slice content last_end (length content))] else parts))"

lemma avoid_process_code_blocks_finish:
  "avoid_process_code_blocks content f flag =
     finish content f (avoid_loop content f (finditer (code_block_pattern flag) content) ([], 0))"
  by (simp add: avoid_process_code_blocks_def finish_def Let_def split: prod.splits)

lemma spec_rewrite_prose: "spec_rewrite f (prose t @ sps) = (if t = [] then [] else f t) @ spec_rewrite f sps"
  by (simp add: spec_rewrite_def prose_def)

lemma spec_rewrite_Code: "spec_rewrite f (Code t # sps) = t @ spec_rewrite f sps"
  by (simp add: spec_rewrite_def)

lemma loop_spans:
  assumes "content = rev (fst cur) @ snd cur" "fst cur = gap @ b0" "length b0 = last_end"
  shows "finish content f (avoid_loop content f (scan r must cur) (parts, last_end))
           = concat parts @ spec_rewrite f (spans_from r must cur gap)"
  using assms
proof (induction r must cur arbitrary: gap b0 last_end parts rule: scan.induct)
  case (1 r must cur)
  show ?case
  proof (cases "first_match r must cur")
    case (Some res)
    have r: "reach cur (fst res)" using Some by (rule first_match_reach)
    define m where "m = between cur (fst res)"
    have s: "snd cur = m @ snd (fst res)" and b': "fst (fst res) = rev m @ fst cur"
      using reach_between[OF r] reach_fst[OF r] by (simp_all add: m_def)
    have gapslice: "slice content last_end (length (fst cur)) = rev gap"
      using 1(3,4,5) by (simp add: slice_def)
    have start: "(last_end < length (fst cur)) = (gap \<noteq> [])"
      using 1(4,5) by auto
    have IH: "finish content f (avoid_loop content f (scan r (snd (fst res) = snd cur) (fst res)) (ps, length (fst (fst res))))
           = concat ps @ spec_rewrite f (spans_from r (snd (fst res) = snd cur) (fst res) [])" for ps
      by (rule 1(2)[OF Some, where gap="[]" and ?b0.0="fst (fst res)"])
         (use 1(3) s b' in simp_all)
    show ?thesis
      apply (subst scan.simps, subst spans_from.simps)
      apply (simp add: Some mk_match_def Let_def IH start gapslice spec_rewrite_prose spec_rewrite_Code m_def)
      done
  next
    case None
    obtain b s where cur: "cur = (b, s)" by (cases cur)
    show ?thesis
    proof (cases s)
      case Nil
      have "slice content last_end (length content) = rev gap"
        using 1(3,4,5) cur Nil by (simp add: slice_def)
      moreover have "(last_end < length content) = (gap \<noteq> [])"
        using 1(3,4,5) cur Nil by auto
      ultimately show ?thesis
        apply (subst scan.simps, subst spans_from.simps)
        apply (simp add: None[unfolded cur Nil] cur Nil finish_def spec_rewrite_def prose_def)
        done
    next
      case (Cons c s')
      have IH: "finish content f (avoid_loop content f (scan r False (c # b, s')) (parts, last_end))
           = concat parts @ spec_rewrite f (spans_from r False (c # b, s') (c # gap))"
        by (rule 1(1)[OF None cur[symmetric] Cons, where ?b0.0=b0])
           (use 1(3,4,5) cur Cons in simp_all)
      show ?thesis
        apply (subst scan.simps, subst spans_from.simps)
        apply (simp add: None[unfolded cur Cons] cur Cons IH)
        done
    qed
  qed
qed

lemma spans_concat:
  "concat (map span_text (spans_from r must cur gap)) = rev gap @ snd cur"
proof (induction r must cur gap rule: spans_from.induct)
  case (1 r must cur gap)
  show ?case
  proof (cases "first_match r must cur")
    case (Some res)
    have r: "reach cur (fst res)" using Some by (rule first_match_reach)
    show ?thesis
      apply (subst spans_from.simps)
      apply (simp add: Some 1(2)[OF Some] prose_def)
      apply (rule reach_between[OF r, symmetric])
      done
  next
    case None
    obtain b s where cur: "cur = (b, s)" by (cases cur)
    show ?thesis
    proof (cases s)
      case Nil
      then show ?thesis
        by (subst spans_from.simps) (simp add: None[unfolded cur Nil] cur prose_def)
    next
      case (Cons c s')
      show ?thesis
        apply (subst spans_from.simps)
        apply (simp add: None[unfolded cur Cons] cur Cons 1(1)[OF None cur[symmetric] Cons])
        done
    qed
  qed
qed


fun well_cut :: "span list \<Rightarrow> bool" where
  "well_cut [] = True"
| "well_cut (Code t # sps) = well_cut sps"
| "well_cut (Prose t # sps) =
     (t \<noteq> [] \<and> (case sps of Prose t' # sps' \<Rightarrow> False | _ \<Rightarrow> well_cut sps))"

lemma well_cut_prose: "well_cut (prose t)"
  by (simp add: prose_def)

lemma well_cut_prose_Code: "well_cut (prose t @ Code u # sps) = well_cut sps"
  by (simp add: prose_def)

lemma spans_well_cut: "well_cut (spans_from r must cur gap)"
proof (induction r must cur gap rule: spans_from.induct)
  case (1 r must cur gap)
  show ?case
  proof (cases "first_match r must cur")
    case (Some res)
    show ?thesis
      by (subst spans_from.simps) (simp add: Some 1(2)[OF Some] well_cut_prose_Code)
  next
    case None
    obtain b s where cur: "cur = (b, s)" by (cases cur)
    show ?thesis
    proof (cases s)
      case Nil
      then show ?thesis
        by (subst spans_from.simps) (simp add: None[unfolded cur Nil] cur well_cut_prose)
    next
      case (Cons c s')
      show ?thesis
        by (subst spans_from.simps)
           (simp add: None[unfolded cur Cons] cur Cons 1(1)[OF None cur[symmetric] Cons])
    qed
  qed
qed

fun codes :: "span list \<Rightarrow> ustring list" where
  "codes [] = []"
| "codes (Code t # sps) = t # codes sps"
| "codes (Prose t # sps) = codes sps"

lemma codes_prose: "codes (prose t @ sps) = codes sps"
  by (simp add: prose_def)

lemma spans_codes: "codes (spans_from r must cur gap) = map m_group0 (scan r must cur)"
proof (induction r must cur gap rule: spans_from.induct)
  case (1 r must cur gap)
  show ?case
  proof (cases "first_match r must cur")
    case (Some res)
    show ?thesis
      by (subst spans_from.simps, subst scan.simps)
         (simp add: Some 1(2)[OF Some] codes_prose mk_match_def)
  next
    case None
    obtain b s where cur: "cur = (b, s)" by (cases cur)
    show ?thesis
    proof (cases s)
      case Nil
      then show ?thesis
        by (subst spans_from.simps, subst scan.simps)
           (simp add: None[unfolded cur Nil] cur prose_def)
    next
      case (Cons c s')
      show ?thesis
        by (subst spans_from.simps, subst scan.simps)
           (simp add: None[unfolded cur Cons] cur Cons 1(1)[OF None cur[symmetric] Cons])
    qed
  qed
qed

lemma scan_spans:
  assumes "content = rev (fst cur) @ snd cur" "m \<in> set (scan r must cur)"
  shows "length (fst cur) \<le> m_start m \<and> m_start m \<le> m_end m \<and> m_end m \<le> length content
         \<and> m_group0 m = slice content (m_start m) (m_end m)"
  using assms
proof (induction r must cur rule: scan.induct)
  case (1 r must cur)
  show ?case
  proof (cases "first_match r must cur")
    case (Some res)
    have r: "reach cur (fst res)" using Some by (rule first_match_reach)
    define t where "t = between cur (fst res)"
    have s: "snd cur = t @ snd (fst res)" and b': "fst (fst res) = rev t @ fst cur"
      using reach_between[OF r] reach_fst[OF r] by (simp_all add: t_def)
    from 1(4) have "m = mk_match cur res \<or> m \<in> set (scan r (snd (fst res) = snd cur) (fst res))"
      by (subst (asm) scan.simps) (simp add: Some)
    then show ?thesis
    proof
      assume "m = mk_match cur res"
      then show ?thesis
        using 1(3) s b' by (simp add: mk_match_def slice_def t_def[symmetric])
    next
      assume "m \<in> set (scan r (snd (fst res) = snd cur) (fst res))"
      from 1(2)[OF Some _ this] 1(3) s b' show ?thesis by simp
    qed
  next
    case None
    obtain b s where cur: "cur = (b, s)" by (cases cur)
    show ?thesis
    proof (cases s)
      case Nil
      with 1(4) show ?thesis
        by (subst (asm) scan.simps) (simp add: None[unfolded cur Nil] cur)
    next
      case (Cons c s')
      from 1(4) have "m \<in> set (scan r False (c # b, s'))"
        by (subst (asm) scan.simps) (simp add: None[unfolded cur Cons] cur Cons)
      from 1(1)[OF None cur[symmetric] Cons _ this] 1(3) cur Cons show ?thesis by simp
    qed
  qed
qed

text \<open>
  Claim C1. With the identity as the transform, the rewriter returns every document
  unchanged, for either value of the flag: the empty document, a document that is one
  code block and a document that mixes prose and code are instances.
\<close>

theorem avoid_process_code_blocks_identity:
  "avoid_process_code_blocks s (\<lambda>t. t) avoid_inline_code = s"
proof -
  have "avoid_process_code_blocks s (\<lambda>t. t) avoid_inline_code
          = spec_rewrite (\<lambda>t. t) (spec_spans avoid_inline_code s)"
    unfolding avoid_process_code_blocks_finish finditer_def spec_spans_def
    by (subst loop_spans[where gap="[]" and ?b0.0="[]"]) simp_all
  also have "\<dots> = concat (map span_text (spec_spans avoid_inline_code s))"
  proof -
    have "render (\<lambda>t. t) = span_text"
    proof
      fix sp show "render (\<lambda>t. t) sp = span_text sp" by (cases sp) simp_all
    qed
    then show ?thesis by (simp add: spec_rewrite_def)
  qed
  also have "\<dots> = s"
    by (simp add: spec_spans_def spans_concat)
  finally show ?thesis .
qed

theorem avoid_process_code_blocks_identity_witness:
  "avoid_process_code_blocks [] (\<lambda>t. t) True = []
   \<and> avoid_process_code_blocks (asc ''```x```'') (\<lambda>t. t) False = asc ''```x```''
   \<and> avoid_process_code_blocks (asc ''a `b` c'') (\<lambda>t. t) True = asc ''a `b` c''"
  using avoid_process_code_blocks_identity[of "[]" True]
        avoid_process_code_blocks_identity[of "asc ''```x```''" False]
        avoid_process_code_blocks_identity[of "asc ''a `b` c''" True]
  by simp

text \<open>
  Claim C2. The output of the rewriter is the concatenation, in the order of the document,
  of the transform applied to each stretch of prose between the matches of the code-block
  pattern and of the matches themselves, copied verbatim. The spans cut the document
  (their texts concatenate to it), the stretches of prose are maximal (none is empty and
  no two are adjacent), and the code spans are the texts of the matches that
  \<open>finditer\<close> reports, each the slice of the document at its span.
\<close>

theorem avoid_process_code_blocks_spans:
  "avoid_process_code_blocks s f avoid_inline_code = spec_rewrite f (spec_spans avoid_inline_code s)
   \<and> concat (map span_text (spec_spans avoid_inline_code s)) = s
   \<and> well_cut (spec_spans avoid_inline_code s)
   \<and> codes (spec_spans avoid_inline_code s)
       = map m_group0 (finditer (code_block_pattern avoid_inline_code) s)
   \<and> list_all (\<lambda>m. m_group0 m = slice s (m_start m) (m_end m))
        (finditer (code_block_pattern avoid_inline_code) s)"
proof (intro conjI)
  show "avoid_process_code_blocks s f avoid_inline_code = spec_rewrite f (spec_spans avoid_inline_code s)"
    unfolding avoid_process_code_blocks_finish finditer_def spec_spans_def
    by (subst loop_spans[where gap="[]" and ?b0.0="[]"]) simp_all
  show "concat (map span_text (spec_spans avoid_inline_code s)) = s"
    by (simp add: spec_spans_def spans_concat)
  show "well_cut (spec_spans avoid_inline_code s)"
    by (simp add: spec_spans_def spans_well_cut)
  show "codes (spec_spans avoid_inline_code s)
       = map m_group0 (finditer (code_block_pattern avoid_inline_code) s)"
    by (simp add: spec_spans_def finditer_def spans_codes)
  show "list_all (\<lambda>m. m_group0 m = slice s (m_start m) (m_end m))
        (finditer (code_block_pattern avoid_inline_code) s)"
    unfolding list_all_iff finditer_def
    using scan_spans[where cur="([], s)" and content=s] by simp
qed


lemma spec_spans_example:
  "spec_spans True (asc ''a `b` c'') = [Prose (asc ''a ''), Code (asc ''`b`''), Prose (asc '' c'')]"
  by code_simp

theorem avoid_process_code_blocks_spans_witness:
  "avoid_process_code_blocks (asc ''a `b` c'') (\<lambda>t. asc ''<'' @ t @ asc ''>'') True
     = asc ''<a >`b`< c>''"
proof -
  have "avoid_process_code_blocks (asc ''a `b` c'') (\<lambda>t. asc ''<'' @ t @ asc ''>'') True
          = spec_rewrite (\<lambda>t. asc ''<'' @ t @ asc ''>'') (spec_spans True (asc ''a `b` c''))"
    using avoid_process_code_blocks_spans[of "asc ''a `b` c''" "\<lambda>t. asc ''<'' @ t @ asc ''>''" True]
    by (rule conjunct1)
  also have "\<dots> = asc ''<a >`b`< c>''"
    unfolding spec_spans_example by (simp add: spec_rewrite_def)
  finally show ?thesis .
qed




section \<open>Substitution\<close>

text \<open>
  \<open>re.sub(pattern, repl, string)\<close>: the text where no match starts is copied, each
  match is replaced by \<open>repl\<close> applied to it, and the search goes on at the end of the
  match.
\<close>

function sub_from :: "re \<Rightarrow> (py_match \<Rightarrow> ustring) \<Rightarrow> bool \<Rightarrow> cursor \<Rightarrow> ustring" where
  "sub_from r repl must cur =
     (case first_match r must cur of
        Some res \<Rightarrow> repl (mk_match cur res) @ sub_from r repl (snd (fst res) = snd cur) (fst res)
      | None \<Rightarrow> (case cur of (b, []) \<Rightarrow> [] | (b, c # s) \<Rightarrow> c # sub_from r repl False (c # b, s)))"
  by pat_completeness auto
termination
proof (relation "measure (\<lambda>(r, repl, must, cur). 2 * length (snd cur) + (if must then 0 else 1))", goal_cases)
  case 1
  show ?case by simp
next
  case (2 r repl must cur b s c s')
  then show ?case by auto
next
  case (3 r repl must cur res)
  then show ?case using first_match_measure[of r must cur res] by simp
qed

declare sub_from.simps [simp del]

definition py_sub :: "re \<Rightarrow> (py_match \<Rightarrow> ustring) \<Rightarrow> ustring \<Rightarrow> ustring" where
  "py_sub r repl s = sub_from r repl False ([], s)"

text \<open>
  An excerpt of the tables of CPython, for evaluating examples: the white space beyond
  ASCII, the CJK unified ideographs U+4E00 to U+9FA5 (letters without case), and
  U+0130, a letter whose lower case is the two characters U+0069 U+0307, the second of
  which is a combining mark and not alphanumeric. It holds the values of CPython at these
  characters; the examples use no other character beyond ASCII.
\<close>

definition ucd_excerpt :: ucd where
  "ucd_excerpt =
     \<lparr> uc_space = (\<lambda>c. c \<in> {133, 160, 5760, 8232, 8233, 8239, 8287, 12288} \<or> (8192 \<le> c \<and> c \<le> 8202)),
       uc_alnum = (\<lambda>c. c = 304 \<or> (19968 \<le> c \<and> c \<le> 40869)),
       uc_decimal = (\<lambda>c. None),
       uc_lower = (\<lambda>s i. if s ! i = 304 then [105, 775] else [s ! i]) \<rparr>"


section \<open>The filename normalizer\<close>

text \<open>
  \<open>title2filename\<close> prints the title, a warning for a long name and the name, and
  returns the name or raises \<open>ValueError\<close>. The printed lines are returned with the
  result.
\<close>

type_synonym path = "ustring list"

datatype printed =
    Original ustring
  | Warning64
  | Converted ustring
  | Executing ustring
  | DraftCreated ustring path

datatype error =
    ValueError
  | FileExistsError
  | FileNotFoundError
  | NotADirectoryError
  | IsADirectoryError
  | ShutilError
  | ReError

definition sep_char :: "ucd \<Rightarrow> uchar \<Rightarrow> bool" where
  "sep_char U c = (py_isspace U c \<or> c = 45 \<or> c = 95)"

definition word_char :: "ucd \<Rightarrow> uchar \<Rightarrow> bool" where
  "word_char U c = (py_isalnum U c \<or> c = 95)"

definition title2filename :: "ucd \<Rightarrow> ustring \<Rightarrow> printed list \<times> (error + ustring)" where
  "title2filename U title =
     (let out = [Original title];
          filename = py_sub (plus_re True (sep_char U)) (\<lambda>m. asc ''-'') title;
          filename = py_sub (Cls (\<lambda>c. \<not> (word_char U c \<or> c = 45))) (\<lambda>m. []) filename;
          filename = py_lower U filename
      in if length filename > 255 then (out, Inl ValueError)
         else (let out = (if length filename > 64 then out @ [Warning64] else out)
               in (out @ [Converted filename], Inr filename)))"


text \<open>The value of \<open>filename\<close> after the three rewriting steps.\<close>

definition normalized :: "ucd \<Rightarrow> ustring \<Rightarrow> ustring" where
  "normalized U title =
     py_lower U
       (py_sub (Cls (\<lambda>c. \<not> (word_char U c \<or> c = 45))) (\<lambda>m. [])
          (py_sub (plus_re True (sep_char U)) (\<lambda>m. asc ''-'') title))"

text \<open>
  A tidy name: hyphens and alphanumeric characters that are not white space, with no two
  hyphens next to each other.
\<close>

fun tidy :: "ucd \<Rightarrow> ustring \<Rightarrow> bool" where
  "tidy U [] = True"
| "tidy U (c # s) =
     (if c = 45 then (case s of [] \<Rightarrow> True | d # s' \<Rightarrow> d \<noteq> 45) \<and> tidy U s
      else py_isalnum U c \<and> \<not> py_isspace U c \<and> tidy U s)"

lemma first_match_None: "ms r (cur, Map.empty) = [] \<Longrightarrow> first_match r must cur = None"
  by (simp add: first_match_def)

lemma first_match_Some:
  "ms r (cur, Map.empty) = res # rest \<Longrightarrow> snd (fst res) \<noteq> snd cur \<Longrightarrow> first_match r must cur = Some res"
  by (cases res) (simp add: first_match_def)

lemma sub_from_Nil: "first_match r must (b, []) = None \<Longrightarrow> sub_from r repl must (b, []) = []"
  by (subst sub_from.simps) simp

lemma sub_from_skip:
  "first_match r must (b, c # s) = None \<Longrightarrow>
   sub_from r repl must (b, c # s) = c # sub_from r repl False (c # b, s)"
  by (subst sub_from.simps) simp

lemma sub_from_match:
  "first_match r must cur = Some res \<Longrightarrow>
   sub_from r repl must cur
     = repl (mk_match cur res) @ sub_from r repl (snd (fst res) = snd cur) (fst res)"
  by (subst sub_from.simps) simp

lemma sub_from_Cls_none:
  "\<forall>c \<in> set s. \<not> P c \<Longrightarrow> sub_from (Cls P) repl False (b, s) = s"
proof (induction s arbitrary: b)
  case Nil
  show ?case by (rule sub_from_Nil) (simp add: first_match_def)
next
  case (Cons c s)
  have "first_match (Cls P) False (b, c # s) = None"
    using Cons.prems by (simp add: first_match_def)
  then show ?case using Cons by (simp add: sub_from_skip)
qed

lemma alnum_not_sep: "py_isalnum U c \<Longrightarrow> \<not> py_isspace U c \<Longrightarrow> \<not> sep_char U c"
  by (auto simp: py_isalnum_def sep_char_def split: if_splits)

lemma tidy_hd_not_sep: "tidy U (d # s) \<Longrightarrow> d \<noteq> 45 \<Longrightarrow> \<not> sep_char U d"
  by (simp add: alnum_not_sep)

lemma sub_from_tidy:
  "tidy U s \<Longrightarrow> sub_from (plus_re True (sep_char U)) (\<lambda>m. [45]) False (b, s) = s"
proof (induction s arbitrary: b)
  case Nil
  show ?case by (rule sub_from_Nil) (simp add: first_match_def plus_re_def)
next
  case (Cons c s)
  show ?case
  proof (cases "c = 45")
    case True
    have star: "star_ends True (sep_char U) (45 # b, s) = [(45 # b, s)]"
    proof (cases s)
      case Nil
      then show ?thesis by simp
    next
      case (Cons d s')
      with \<open>tidy U (c # s)\<close> True have "d \<noteq> 45" "tidy U (d # s')" by simp_all
      then have "\<not> sep_char U d" by (rule_tac tidy_hd_not_sep)
      with Cons show ?thesis by simp
    qed
    have "ms (plus_re True (sep_char U)) ((b, 45 # s), Map.empty) = [((45 # b, s), Map.empty)]"
      by (simp add: plus_re_def star sep_char_def)
    then have fm: "first_match (plus_re True (sep_char U)) False (b, 45 # s) = Some ((45 # b, s), Map.empty)"
      by (simp add: first_match_def)
    have "tidy U s" using Cons.prems True by simp
    then show ?thesis
      using True by (simp add: sub_from_match[OF fm] Cons.IH)
  next
    case False
    with Cons.prems have "\<not> sep_char U c" by (rule_tac tidy_hd_not_sep)
    then have "first_match (plus_re True (sep_char U)) False (b, c # s) = None"
      by (simp add: first_match_def plus_re_def)
    moreover have "tidy U s" using Cons.prems False by simp
    ultimately show ?thesis by (simp add: sub_from_skip Cons.IH)
  qed
qed

lemma tidy_word: "tidy U s \<Longrightarrow> \<forall>c \<in> set s. \<not> \<not> (word_char U c \<or> c = 45)"
  by (induction s) (auto simp: word_char_def split: if_splits)

lemma normalized_tidy:
  assumes "tidy U F" "py_lower U F = F"
  shows "normalized U F = F"
proof -
  have "sub_from (Cls (\<lambda>c. \<not> (word_char U c \<or> c = 45))) (\<lambda>m. []) False ([], F) = F"
    by (rule sub_from_Cls_none) (use tidy_word[OF assms(1)] in simp)
  then show ?thesis
    using assms by (simp add: normalized_def py_sub_def sub_from_tidy)
qed

lemma title2filename_normalized:
  "title2filename U title =
     (if length (normalized U title) > 255 then ([Original title], Inl ValueError)
      else if length (normalized U title) > 64
        then ([Original title, Warning64, Converted (normalized U title)], Inr (normalized U title))
      else ([Original title, Converted (normalized U title)], Inr (normalized U title)))"
  by (simp add: title2filename_def normalized_def Let_def)

text \<open>
  Claim C4. With \<open>F\<close> the normalized form of the title: if \<open>F\<close> has at most 64
  characters, \<open>title2filename\<close> prints no warning and returns \<open>F\<close>; if it has more
  than 64 and at most 255, it prints exactly one warning and returns \<open>F\<close>; if it has
  more than 255, it raises the error (\<open>ValueError\<close> in the code) and returns no name.
\<close>

theorem title2filename_length:
  "title2filename U title =
     (if length (normalized U title) > 255 then ([Original title], Inl ValueError)
      else if length (normalized U title) > 64
        then ([Original title, Warning64, Converted (normalized U title)], Inr (normalized U title))
      else ([Original title, Converted (normalized U title)], Inr (normalized U title)))"
  by (rule title2filename_normalized)

text \<open>
  Claim C3, as amended. When the name \<open>F\<close> returned for a title is tidy and unchanged
  by lower-casing, normalizing \<open>F\<close> again returns \<open>F\<close>. (Idempotence for every title
  fails: see the counterexample below.)
\<close>

theorem title2filename_idempotent_tidy:
  assumes "snd (title2filename U title) = Inr F" "tidy U F" "py_lower U F = F"
  shows "snd (title2filename U F) = Inr F"
proof -
  from assms(1) have "F = normalized U title \<and> length F \<le> 255"
    by (auto simp: title2filename_normalized split: if_splits)
  moreover have "normalized U F = F" using assms(2,3) by (rule normalized_tidy)
  ultimately show ?thesis by (auto simp: title2filename_normalized)
qed

lemmas eval_simps = title2filename_def py_sub_def sub_from.simps first_match_def plus_re_def sep_char_def word_char_def py_isspace_def py_isalnum_def py_lower_def lower_char_def ucd_excerpt_def between_def mk_match_def Let_def

text \<open>
  Counterexample to claim C3 as stated: the title \<open>a-!-b\<close> is normalized to \<open>a--b\<close>,
  and \<open>a--b\<close> is normalized to \<open>a-b\<close>.
\<close>

theorem title2filename_not_idempotent:
  "snd (title2filename ucd_excerpt (asc ''a-!-b'')) = Inr (asc ''a--b'')
   \<and> snd (title2filename ucd_excerpt (asc ''a--b'')) = Inr (asc ''a-b'')"
  by (simp add: eval_simps)

lemma py_lower_ascii:
  assumes "\<forall>c \<in> set s. c < 128 \<and> \<not> (65 \<le> c \<and> c \<le> 90)"
  shows "py_lower U s = s"
proof -
  have "lower_char U s i = [s ! i]" if "i < length s" for i
    using assms nth_mem[OF that] by (auto simp: lower_char_def Let_def)
  then have eq: "map (lower_char U s) [0..<length s] = map (\<lambda>i. [s ! i]) [0..<length s]"
    by (intro map_cong refl) simp
  have "py_lower U s = concat (map (\<lambda>i. [s ! i]) [0..<length s])"
    unfolding py_lower_def eq ..
  also have "\<dots> = map ((!) s) [0..<length s]"
    by (rule concat_map_singleton)
  also have "\<dots> = s"
    by (rule map_nth)
  finally show ?thesis .
qed

lemma tidy_replicate: "tidy U (replicate n 97)"
  by (induction n) (simp_all add: py_isalnum_def py_isspace_def)

lemma normalized_replicate: "normalized U (replicate n 97) = replicate n 97"
  by (rule normalized_tidy[OF tidy_replicate]) (simp add: py_lower_ascii)

lemma normalized_hello:
  "normalized ucd_excerpt (asc ''Hello World'') = asc ''hello-world''"
  by (simp add: normalized_def eval_simps)

theorem title2filename_length_witness:
  "title2filename ucd_excerpt (asc ''Hello World'')
     = ([Original (asc ''Hello World''), Converted (asc ''hello-world'')], Inr (asc ''hello-world''))
   \<and> title2filename ucd_excerpt (replicate 65 97)
     = ([Original (replicate 65 97), Warning64, Converted (replicate 65 97)], Inr (replicate 65 97))
   \<and> title2filename ucd_excerpt (replicate 256 97) = ([Original (replicate 256 97)], Inl ValueError)"
  using title2filename_length[of ucd_excerpt "asc ''Hello World''"]
        title2filename_length[of ucd_excerpt "replicate 65 97"]
        title2filename_length[of ucd_excerpt "replicate 256 97"]
  by (simp only: normalized_replicate normalized_hello length_replicate) simp

lemma hello_world: "snd (title2filename ucd_excerpt (asc ''Hello  World_x'')) = Inr (asc ''hello-world-x'')"
  by (simp add: eval_simps)

lemma hello_tidy: "tidy ucd_excerpt (asc ''hello-world-x'')"
  by (simp add: py_isalnum_def py_isspace_def)

lemma hello_lower: "py_lower ucd_excerpt (asc ''hello-world-x'') = asc ''hello-world-x''"
  by (simp add: py_lower_def lower_char_def)

theorem title2filename_idempotent_tidy_witness:
  "snd (title2filename ucd_excerpt (asc ''Hello  World_x'')) = Inr (asc ''hello-world-x'')
   \<and> tidy ucd_excerpt (asc ''hello-world-x'')
   \<and> py_lower ucd_excerpt (asc ''hello-world-x'') = asc ''hello-world-x''
   \<and> snd (title2filename ucd_excerpt (asc ''hello-world-x'')) = Inr (asc ''hello-world-x'')"
  using title2filename_idempotent_tidy[OF hello_world hello_tidy hello_lower]
        hello_world hello_tidy hello_lower
  by blast

text \<open>
  Claim C10 fails on the code: for the title U+0130 the returned name is U+0069 U+0307,
  and U+0307 is neither a word character nor a hyphen. Lower-casing runs after the
  special characters have been removed.
\<close>

theorem title2filename_nonword_output:
  "snd (title2filename ucd_excerpt [304]) = Inr [105, 775]
   \<and> \<not> word_char ucd_excerpt 775 \<and> 775 \<noteq> (45::nat)"
  by (simp add: eval_simps)




section \<open>The front matter\<close>

text \<open>\<open>re.search\<close>: the first match of \<open>finditer\<close>, if any.\<close>

definition py_search :: "re \<Rightarrow> ustring \<Rightarrow> py_match option" where
  "py_search r s = (case finditer r s of [] \<Rightarrow> None | m # rest \<Rightarrow> Some m)"

text \<open>
  A replacement string without a backslash stands for itself. One with a backslash is a
  template whose escapes module \<open>re\<close> expands or rejects; that expansion is the
  parameter \<open>tmpl\<close>.
\<close>

definition py_template ::
  "(ustring \<Rightarrow> error + (py_match \<Rightarrow> ustring)) \<Rightarrow> ustring \<Rightarrow> error + (py_match \<Rightarrow> ustring)"
where
  "py_template tmpl t = (if 92 \<in> set t then tmpl t else Inr (\<lambda>m. t))"

text \<open>\<open>match.group(k)\<close> inside an f-string: a group that took no part prints as \<open>None\<close>.\<close>

definition group :: "py_match \<Rightarrow> nat \<Rightarrow> ustring" where
  "group m k = (case m_groups m k of Some t \<Rightarrow> t | None \<Rightarrow> asc ''None'')"

text \<open>
  \<open>f.readlines()\<close> on the text of the file (as read in text mode, line ends already
  translated to \<open>\n\<close>): the lines, each with its line end.
\<close>

fun readlines :: "ustring \<Rightarrow> ustring list" where
  "readlines [] = []"
| "readlines (c # s) =
     (if c = 10 then [10] # readlines s
      else (case readlines s of [] \<Rightarrow> [[c]] | l # ls \<Rightarrow> (c # l) # ls))"

text \<open>\<open>lines.index('---\n', 1) if '---\n' in lines[1:] else None\<close>\<close>

fun index_from :: "ustring list \<Rightarrow> ustring \<Rightarrow> nat \<Rightarrow> nat option" where
  "index_from [] x i = None"
| "index_from (l # ls) x i = (if l = x then Some i else index_from ls x (Suc i))"

definition front_matter_end_index :: "ustring list \<Rightarrow> nat option" where
  "front_matter_end_index lines = index_from (drop 1 lines) (asc ''---'' @ [10]) 1"

definition digit_char :: "ucd \<Rightarrow> uchar \<Rightarrow> bool" where
  "digit_char U c = (py_digit U c \<noteq> None)"

definition date_pattern :: "ucd \<Rightarrow> re" where
  "date_pattern U =
     seq [lit (asc ''date:''), Star True (py_isspace U),
          Grp 1 (seq [Cls (digit_char U), Cls (digit_char U), Cls (digit_char U), Cls (digit_char U),
                      lit (asc ''-''), Cls (digit_char U), Cls (digit_char U),
                      lit (asc ''-''), Cls (digit_char U), Cls (digit_char U)])]"

definition title_pattern :: "ucd \<Rightarrow> re" where
  "title_pattern U = seq [lit (asc ''title:''), Star True (py_isspace U), Star True dot]"

definition cover_pattern :: "ucd \<Rightarrow> re" where
  "cover_pattern U = seq [lit (asc ''cover:''), Star True (py_isspace U), Star True dot]"

definition is_leap :: "nat \<Rightarrow> bool" where
  "is_leap y = (y mod 4 = 0 \<and> (y mod 100 \<noteq> 0 \<or> y mod 400 = 0))"

definition days_in_month :: "nat \<Rightarrow> nat \<Rightarrow> nat" where
  "days_in_month y m =
     (if m = 2 then (if is_leap y then 29 else 28)
      else if m \<in> {4, 6, 9, 11} then 30 else 31)"

text \<open>
  \<open>datetime.strptime(date_str, '%Y-%m-%d')\<close> on the ten characters that the date pattern
  captured: four digits, a hyphen, two digits, a hyphen, two digits. The result is the
  year and the month, or \<open>ValueError\<close>.
\<close>

definition dval :: "ucd \<Rightarrow> uchar \<Rightarrow> nat" where
  "dval U c = (case py_digit U c of Some v \<Rightarrow> v | None \<Rightarrow> 0)"

definition strptime_ymd :: "ucd \<Rightarrow> ustring \<Rightarrow> error + nat \<times> nat" where
  "strptime_ymd U d =
     (let y = dval U (d ! 0) * 1000 + dval U (d ! 1) * 100 + dval U (d ! 2) * 10 + dval U (d ! 3);
          m1 = d ! 5; m2 = d ! 6; d1 = d ! 8; d2 = d ! 9;
          month_ok = ((m1 = 49 \<and> 48 \<le> m2 \<and> m2 \<le> 50) \<or> (m1 = 48 \<and> 49 \<le> m2 \<and> m2 \<le> 57));
          day_ok = ((d1 = 51 \<and> 48 \<le> d2 \<and> d2 \<le> 49) \<or> (49 \<le> d1 \<and> d1 \<le> 50)
                    \<or> (d1 = 48 \<and> 49 \<le> d2 \<and> d2 \<le> 57));
          m = (m1 - 48) * 10 + (m2 - 48);
          dd = (d1 - 48) * 10 + dval U d2
      in if month_ok \<and> day_ok \<and> 1 \<le> y \<and> dd \<le> days_in_month y m then Inr (y, m)
         else Inl ValueError)"

definition digit2 :: "nat \<Rightarrow> ustring" where
  "digit2 n = [48 + (n div 10) mod 10, 48 + n mod 10]"

text \<open>\<open>strftime('%Y/%m')\<close>, the year written with four digits.\<close>

definition strftime_ym :: "nat \<times> nat \<Rightarrow> ustring" where
  "strftime_ym ym = digit2 (fst ym div 100) @ digit2 (fst ym mod 100) @ asc ''/'' @ digit2 (snd ym)"

definition change_front_matter_text ::
  "ucd \<Rightarrow> (ustring \<Rightarrow> error + (py_match \<Rightarrow> ustring)) \<Rightarrow> ustring \<Rightarrow> ustring \<Rightarrow> ustring
     \<Rightarrow> error + ustring"
where
  "change_front_matter_text U tmpl text filename title =
     (let lines = readlines text in
      case front_matter_end_index lines of
        None \<Rightarrow> Inl ValueError
      | Some i \<Rightarrow>
          (let front_matter = concat (take (i + 1) lines);
               content = concat (drop (i + 1) lines)
           in case py_search (date_pattern U) front_matter of
                None \<Rightarrow> Inl ValueError
              | Some date_match \<Rightarrow>
                  (case strptime_ymd U (group date_match 1) of
                     Inl e \<Rightarrow> Inl e
                   | Inr date_obj \<Rightarrow>
                       (let yyyy_mm = strftime_ym date_obj in
                        case py_template tmpl (asc ''title: '' @ title) of
                          Inl e \<Rightarrow> Inl e
                        | Inr repl_title \<Rightarrow>
                            (let front_matter = py_sub (title_pattern U) repl_title front_matter in
                             case py_template tmpl
                                    (asc ''cover: '' @ yyyy_mm @ asc ''/'' @ filename @ asc ''/cover.jpg'') of
                               Inl e \<Rightarrow> Inl e
                             | Inr repl_cover \<Rightarrow>
                                 (let front_matter = py_sub (cover_pattern U) repl_cover front_matter
                                  in Inr (front_matter @ content)))))))"




section \<open>Drafts in the file system\<close>

text \<open>
  The file system below the blog root (the working directory): a path is the list of its
  components, and each path holds a directory, a file with its text, or nothing.
  \<open>under p q\<close>: \<open>q\<close> is \<open>p\<close> or lies below it. The generator \<open>hexo\<close> is an external
  program: its effect on the file system is the parameter \<open>hexo\<close>.
\<close>

datatype node = Dir | File ustring

type_synonym fs = "path \<Rightarrow> node option"

definition under :: "path \<Rightarrow> path \<Rightarrow> bool" where
  "under p q = (take (length p) q = p)"

text \<open>\<open>p / name\<close> of \<open>pathlib\<close>; an empty name gives \<open>p\<close> itself.\<close>

definition join :: "path \<Rightarrow> ustring \<Rightarrow> path" where
  "join p name = (if name = [] then p else p @ [name])"

definition source_posts_dir :: path where
  "source_posts_dir = [asc ''source'', asc ''_posts'']"

definition draft_dir :: path where
  "draft_dir = [asc ''_draft'']"

definition hidden_dir :: path where
  "hidden_dir = [asc ''_hidden'']"

definition archived_dir :: path where
  "archived_dir = [asc ''_archived'']"

definition is_file :: "fs \<Rightarrow> path \<Rightarrow> bool" where
  "is_file f p = (case f p of Some (File c) \<Rightarrow> True | _ \<Rightarrow> False)"

definition mkdir_exist_ok :: "path \<Rightarrow> fs \<Rightarrow> error + fs" where
  "mkdir_exist_ok p f =
     (case f p of
        None \<Rightarrow> Inr (f(p \<mapsto> Dir))
      | Some Dir \<Rightarrow> Inr f
      | Some (File c) \<Rightarrow> Inl FileExistsError)"

fun mkdir_parents :: "path \<Rightarrow> path \<Rightarrow> fs \<Rightarrow> error + fs" where
  "mkdir_parents pre [] f = Inr f"
| "mkdir_parents pre (c # cs) f =
     (case f (pre @ [c]) of
        None \<Rightarrow> mkdir_parents (pre @ [c]) cs (f(pre @ [c] \<mapsto> Dir))
      | Some Dir \<Rightarrow> mkdir_parents (pre @ [c]) cs f
      | Some (File x) \<Rightarrow> Inl (if cs = [] then FileExistsError else NotADirectoryError))"

definition move_tree :: "path \<Rightarrow> path \<Rightarrow> fs \<Rightarrow> fs" where
  "move_tree src dst f =
     (\<lambda>q. if under dst q then f (src @ drop (length dst) q)
          else if under src q then None else f q)"

definition shutil_move :: "path \<Rightarrow> path \<Rightarrow> fs \<Rightarrow> error + fs" where
  "shutil_move src dst f =
     (let real_dst = (if f dst = Some Dir then dst @ [last src] else dst) in
      if f dst = Some Dir \<and> f real_dst \<noteq> None then Inl ShutilError
      else if f src = Some Dir \<and> is_file f real_dst then Inl NotADirectoryError
      else Inr (move_tree src real_dst f))"

definition rmtree :: "path \<Rightarrow> fs \<Rightarrow> error + fs" where
  "rmtree p f =
     (if is_file f p then Inl NotADirectoryError
      else Inr (\<lambda>q. if under p q then None else f q))"

definition check_get_make_dirs :: "fs \<Rightarrow> (error + unit) \<times> fs" where
  "check_get_make_dirs f =
     (if f source_posts_dir = None then (Inl FileNotFoundError, f)
      else case mkdir_exist_ok draft_dir f of
        Inl e \<Rightarrow> (Inl e, f)
      | Inr f1 \<Rightarrow>
         (case mkdir_exist_ok hidden_dir f1 of
            Inl e \<Rightarrow> (Inl e, f1)
          | Inr f2 \<Rightarrow>
             (case mkdir_exist_ok archived_dir f2 of
                Inl e \<Rightarrow> (Inl e, f2)
              | Inr f3 \<Rightarrow> (Inr (), f3))))"

definition change_front_matter ::
  "ucd \<Rightarrow> (ustring \<Rightarrow> error + (py_match \<Rightarrow> ustring)) \<Rightarrow> path \<Rightarrow> ustring \<Rightarrow> ustring \<Rightarrow> fs
     \<Rightarrow> (error + unit) \<times> fs"
where
  "change_front_matter U tmpl target_dir filename title f =
     (let p = target_dir @ [filename @ asc ''.md''] in
      case f p of
        None \<Rightarrow> (Inl FileNotFoundError, f)
      | Some Dir \<Rightarrow> (Inl IsADirectoryError, f)
      | Some (File text) \<Rightarrow>
          (case change_front_matter_text U tmpl text filename title of
             Inl e \<Rightarrow> (Inl e, f)
           | Inr text' \<Rightarrow> (Inr (), f(p \<mapsto> File text'))))"

definition new_draft ::
  "ucd \<Rightarrow> (ustring \<Rightarrow> error + (py_match \<Rightarrow> ustring)) \<Rightarrow> (ustring \<Rightarrow> fs \<Rightarrow> fs) \<Rightarrow> ustring \<Rightarrow> fs
     \<Rightarrow> (error + unit) \<times> fs \<times> printed list"
where
  "new_draft U tmpl hexo title f =
     (case check_get_make_dirs f of
        (Inl e, f1) \<Rightarrow> (Inl e, f1, [])
      | (Inr u, f1) \<Rightarrow>
         (case title2filename U title of
            (out, Inl e) \<Rightarrow> (Inl e, f1, out)
          | (out, Inr filename) \<Rightarrow>
             (let target_dir = join draft_dir filename in
              if f1 target_dir \<noteq> None then (Inl FileExistsError, f1, out)
              else
               (let cmd = asc ''hexo new post \"'' @ filename @ asc ''\"'';
                    out = out @ [Executing cmd];
                    f2 = hexo cmd f1;
                    post_md = source_posts_dir @ [filename @ asc ''.md'']
                in if f2 post_md = None then (Inl FileNotFoundError, f2, out)
                   else
                    (case mkdir_parents [] target_dir f2 of
                       Inl e \<Rightarrow> (Inl e, f2, out)
                     | Inr f3 \<Rightarrow>
                        (case shutil_move post_md (target_dir @ [filename @ asc ''.md'']) f3 of
                           Inl e \<Rightarrow> (Inl e, f3, out)
                         | Inr f4 \<Rightarrow>
                            (let post_dir = join source_posts_dir filename in
                             case (if f4 post_dir \<noteq> None then rmtree post_dir f4 else Inr f4) of
                               Inl e \<Rightarrow> (Inl e, f4, out)
                             | Inr f5 \<Rightarrow>
                                (case change_front_matter U tmpl target_dir filename title f5 of
                                   (Inl e, f6) \<Rightarrow> (Inl e, f6, out)
                                 | (Inr u, f6) \<Rightarrow>
                                     (Inr (), f6, out @ [DraftCreated title target_dir])))))))))"

lemma mkdir_exist_ok_cases:
  "mkdir_exist_ok p f = Inl FileExistsError \<or>
   (\<exists>f'. mkdir_exist_ok p f = Inr f' \<and> (\<forall>q. q \<noteq> p \<longrightarrow> f' q = f q) \<and> (f p \<noteq> None \<longrightarrow> f' = f) \<and> f' p \<noteq> None)"
  by (auto simp: mkdir_exist_ok_def split: option.splits node.splits)

lemma check_get_make_dirs_frame:
  assumes "check_get_make_dirs f = (r, f')"
  shows "(r = Inr () \<or> r = Inl FileExistsError \<or> r = Inl FileNotFoundError)
         \<and> (\<forall>q. f q \<noteq> None \<longrightarrow> f' q = f q)
         \<and> (\<forall>q. q \<noteq> draft_dir \<and> q \<noteq> hidden_dir \<and> q \<noteq> archived_dir \<longrightarrow> f' q = f q)
         \<and> (f source_posts_dir \<noteq> None \<longrightarrow> r \<noteq> Inl FileNotFoundError)"
  using assms
  by (auto simp: check_get_make_dirs_def mkdir_exist_ok_def
           split: if_splits option.splits node.splits sum.splits)

text \<open>
  Claim C9. In a blog root (\<open>source/_posts\<close> exists), when the title normalizes to a
  filename whose draft directory already exists, \<open>new_draft\<close> fails with
  \<open>FileExistsError\<close> (the spec's AlreadyExistsError), and every path at or below that
  draft directory holds after the call what it held before.
\<close>

theorem new_draft_existing:
  assumes "f source_posts_dir \<noteq> None"
      and "snd (title2filename U title) = Inr filename"
      and "f (join draft_dir filename) = Some Dir"
  shows "fst (new_draft U tmpl hexo title f) = Inl FileExistsError
         \<and> (\<forall>q. under (join draft_dir filename) q \<longrightarrow> fst (snd (new_draft U tmpl hexo title f)) q = f q)"
proof -
  obtain r f1 where c: "check_get_make_dirs f = (r, f1)" by (cases "check_get_make_dirs f")
  note fr = check_get_make_dirs_frame[OF c]
  obtain out where t: "title2filename U title = (out, Inr filename)"
    using assms(2) by (cases "title2filename U title") auto
  have keep: "f1 q = f q" if "under (join draft_dir filename) q" for q
  proof (cases "f q = None")
    case False
    then show ?thesis using fr by blast
  next
    case True
    have "q \<noteq> draft_dir \<and> q \<noteq> hidden_dir \<and> q \<noteq> archived_dir"
      using that True assms(3)
      by (auto simp: under_def join_def draft_dir_def hidden_dir_def archived_dir_def split: if_splits)
    then show ?thesis using fr by blast
  qed
  have ex: "f1 (join draft_dir filename) \<noteq> None"
    using fr assms(3) by auto
  from fr assms(1) have "r = Inr () \<or> r = Inl FileExistsError" by blast
  then show ?thesis
  proof
    assume "r = Inr ()"
    then show ?thesis using c t ex keep by (simp add: new_draft_def)
  next
    assume "r = Inl FileExistsError"
    then show ?thesis using c keep by (simp add: new_draft_def)
  qed
qed


text \<open>
  For the examples, whose replacement strings have no backslash, the template parameter
  is never called.
\<close>

definition no_escapes :: "ustring \<Rightarrow> error + (py_match \<Rightarrow> ustring)" where
  "no_escapes t = Inl ReError"

definition sample_post :: ustring where
  "sample_post =
     asc ''---'' @ [10] @ asc ''title: x'' @ [10] @ asc ''date: 2024-03-05 10:00:00'' @ [10]
     @ asc ''cover:'' @ [10] @ asc ''tags:'' @ [10] @ asc ''---'' @ [10] @ asc ''body'' @ [10]"

lemmas cfm_simps = change_front_matter_text_def sample_post_def front_matter_end_index_def
  py_search_def finditer_def scan.simps date_pattern_def title_pattern_def cover_pattern_def
  first_match_def mk_match_def between_def digit_char_def py_digit_def py_isspace_def
  strptime_ymd_def dval_def days_in_month_def is_leap_def strftime_ym_def digit2_def
  py_template_def py_sub_def sub_from.simps dot_def group_def Let_def

text \<open>
  Claim C8 fails on the code: in a front matter whose \<open>cover:\<close> line has no value, the
  pattern \<open>cover:\s*.*\<close> runs over the line end and takes the next line with it, so
  the line \<open>tags:\<close> is gone from the file that is written back.
\<close>

theorem change_front_matter_eats_line:
  "change_front_matter_text ucd_excerpt no_escapes sample_post (asc ''my-post'') (asc ''My Post'')
     = Inr (asc ''---'' @ [10] @ asc ''title: My Post'' @ [10] @ asc ''date: 2024-03-05 10:00:00'' @ [10]
            @ asc ''cover: 2024/03/my-post/cover.jpg'' @ [10] @ asc ''---'' @ [10] @ asc ''body'' @ [10])"
  by (simp add: cfm_simps)

definition sample_fs :: fs where
  "sample_fs =
     (\<lambda>p. if p = [asc ''source'', asc ''_posts''] \<or> p = [asc ''_draft'']
              \<or> p = [asc ''_draft'', asc ''hello-world''] then Some Dir
           else if p = [asc ''_draft'', asc ''hello-world'', asc ''hello-world.md'']
           then Some (File sample_post) else None)"

lemma hello_world_name: "snd (title2filename ucd_excerpt (asc ''Hello World'')) = Inr (asc ''hello-world'')"
  by (simp add: eval_simps)

theorem new_draft_existing_witness:
  "fst (new_draft ucd_excerpt no_escapes (\<lambda>cmd f. f) (asc ''Hello World'') sample_fs) = Inl FileExistsError
   \<and> fst (snd (new_draft ucd_excerpt no_escapes (\<lambda>cmd f. f) (asc ''Hello World'') sample_fs))
        [asc ''_draft'', asc ''hello-world'', asc ''hello-world.md''] = Some (File sample_post)"
proof -
  have 1: "sample_fs source_posts_dir \<noteq> None"
    by (simp add: sample_fs_def source_posts_dir_def)
  have 3: "sample_fs (join draft_dir (asc ''hello-world'')) = Some Dir"
    by (simp add: sample_fs_def join_def draft_dir_def)
  have u: "under (join draft_dir (asc ''hello-world''))
             [asc ''_draft'', asc ''hello-world'', asc ''hello-world.md'']"
    by (simp add: under_def join_def draft_dir_def)
  have s: "sample_fs [asc ''_draft'', asc ''hello-world'', asc ''hello-world.md''] = Some (File sample_post)"
    by (simp add: sample_fs_def)
  from new_draft_existing[OF 1 hello_world_name 3, of no_escapes "\<lambda>cmd f. f"] u s
  show ?thesis by metis
qed



section \<open>Reasoning about matches\<close>

text \<open>
  \<open>leads r st y\<close>: the first way in which \<open>r\<close> matches at \<open>st\<close> ends in \<open>y\<close>. The
  lemmas below compute it for a text whose beginning is known.
\<close>

lemma ms_lit: 
  "ms (lit w) ((b, s), g) =
     (if take (length w) s = w then [((rev w @ b, drop (length w) s), g)] else [])"
proof (induction w arbitrary: b s)
  case Nil
  show ?case by simp
next
  case (Cons c w)
  show ?case
  proof (cases s)
    case Nil
    then show ?thesis by simp
  next
    case (Cons d s')
    then show ?thesis using Cons.IH[of "d # b" s'] by auto
  qed
qed

lemma ms_lit_append: "ms (lit w) ((b, w @ s), g) = [((rev w @ b, s), g)]"
  by (simp add: ms_lit)

lemma ms_Seq_single: "ms r1 st = [y] \<Longrightarrow> ms (Seq r1 r2) st = ms r2 y"
  by simp

lemma ms_Seq_nil: "ms r1 st = [] \<Longrightarrow> ms (Seq r1 r2) st = []"
  by simp

lemma ms_Seq_lit: "ms (Seq (lit w) r) ((b, w @ s), g) = ms r ((rev w @ b, s), g)"
  by (simp add: ms_lit_append)

lemma ms_Seq_lit_fail: "take (length w) s \<noteq> w \<Longrightarrow> ms (Seq (lit w) r) ((b, s), g) = []"
  by (simp add: ms_lit)

definition leads :: "re \<Rightarrow> cursor \<times> groups \<Rightarrow> cursor \<times> groups \<Rightarrow> bool" where
  "leads r st y = (\<exists>ys. ms r st = y # ys)"

lemma leads_Eps: "leads Eps st st"
  by (simp add: leads_def)

lemma leads_Seq: "leads r1 st y1 \<Longrightarrow> leads r2 y1 y2 \<Longrightarrow> leads (Seq r1 r2) st y2"
  by (auto simp: leads_def)

lemma leads_lit: "leads (lit w) ((b, w @ s), g) ((rev w @ b, s), g)"
  by (simp add: leads_def ms_lit_append)

lemma leads_Cls: "P c \<Longrightarrow> leads (Cls P) ((b, c # s), g) ((c # b, s), g)"
  by (simp add: leads_def)

lemma leads_Alt1: "leads r1 st y \<Longrightarrow> leads (Alt r1 r2) st y"
  by (auto simp: leads_def)

lemma leads_Alt2: "ms r1 st = [] \<Longrightarrow> leads r2 st y \<Longrightarrow> leads (Alt r1 r2) st y"
  by (auto simp: leads_def)

lemma leads_Grp:
  "leads r (cur, g) (cur', g') \<Longrightarrow> leads (Grp k r) (cur, g) (cur', g'(k \<mapsto> between cur cur'))"
  by (auto simp: leads_def)

lemma leads_Bol: "leads Bol ((10 # b, s), g) ((10 # b, s), g)"
  by (simp add: leads_def)

lemma star_ends_greedy_hd:
  "\<forall>c \<in> set x. P c \<Longrightarrow> s = [] \<or> \<not> P (hd s) \<Longrightarrow>
   \<exists>ys. star_ends True P (b, x @ s) = (rev x @ b, s) # ys"
proof (induction x arbitrary: b)
  case Nil
  then show ?case by (cases s) auto
next
  case (Cons c x)
  then obtain ys where "star_ends True P (c # b, x @ s) = (rev x @ c # b, s) # ys"
    by fastforce
  with Cons.prems show ?case by simp
qed

lemma leads_Star_greedy:
  "\<forall>c \<in> set x. P c \<Longrightarrow> s = [] \<or> \<not> P (hd s) \<Longrightarrow>
   leads (Star True P) ((b, x @ s), g) ((rev x @ b, s), g)"
  using star_ends_greedy_hd[of x P s b] by (auto simp: leads_def)

lemma leads_plus_greedy:
  "x \<noteq> [] \<Longrightarrow> \<forall>c \<in> set x. P c \<Longrightarrow> s = [] \<or> \<not> P (hd s) \<Longrightarrow>
   leads (plus_re True P) ((b, x @ s), g) ((rev x @ b, s), g)"
proof -
  assume a: "x \<noteq> []" "\<forall>c \<in> set x. P c" "s = [] \<or> \<not> P (hd s)"
  then obtain c x' where x: "x = c # x'" by (cases x) auto
  have "leads (Cls P) ((b, c # x' @ s), g) ((c # b, x' @ s), g)"
    using a x by (intro leads_Cls) simp
  moreover have "leads (Star True P) ((c # b, x' @ s), g) ((rev x' @ c # b, s), g)"
    using a x by (intro leads_Star_greedy) simp_all
  ultimately show ?thesis
    unfolding plus_re_def using x by (auto dest: leads_Seq)
qed

lemma star_ends_lazy_hd: "\<exists>ys. star_ends False P cur = cur # ys"
  by (cases cur; cases "snd cur") auto

lemma lazy_skip:
  assumes "\<forall>c \<in> set x. P c"
      and "\<And>x1 x2. x = x1 @ x2 \<Longrightarrow> x2 \<noteq> [] \<Longrightarrow> K (rev x1 @ b, x2 @ s) = []"
  shows "concat (map K (star_ends False P (b, x @ s)))
           = concat (map K (star_ends False P (rev x @ b, s)))"
  using assms
proof (induction x arbitrary: b)
  case Nil
  show ?case by simp
next
  case (Cons c x)
  have "K (b, (c # x) @ s) = []"
    using Cons.prems(2)[of "[]" "c # x"] by simp
  moreover have "concat (map K (star_ends False P (c # b, x @ s)))
           = concat (map K (star_ends False P (rev x @ c # b, s)))"
  proof (rule Cons.IH)
    show "\<forall>c \<in> set x. P c" using Cons.prems(1) by simp
    fix x1 x2 assume "x = x1 @ x2" "x2 \<noteq> []"
    then show "K (rev x1 @ c # b, x2 @ s) = []"
      using Cons.prems(2)[of "c # x1" x2] by simp
  qed
  ultimately show ?case using Cons.prems(1) by simp
qed

lemma lazy_first:
  assumes "\<forall>c \<in> set x. P c"
      and "\<And>x1 x2. x = x1 @ x2 \<Longrightarrow> x2 \<noteq> [] \<Longrightarrow> K (rev x1 @ b, x2 @ s) = []"
      and "K (rev x @ b, s) = y # ys"
  shows "\<exists>zs. concat (map K (star_ends False P (b, x @ s))) = y # zs"
proof -
  obtain cs where "star_ends False P (rev x @ b, s) = (rev x @ b, s) # cs"
    using star_ends_lazy_hd by blast
  moreover have "concat (map K (star_ends False P (b, x @ s)))
           = concat (map K (star_ends False P (rev x @ b, s)))"
    by (rule lazy_skip[OF assms(1)]) (rule assms(2))
  ultimately show ?thesis
    using assms(3) by simp
qed


section \<open>Patterns without the line anchor do not look back\<close>

fun bolfree :: "re \<Rightarrow> bool" where
  "bolfree Bol = False"
| "bolfree (Seq r1 r2) = (bolfree r1 \<and> bolfree r2)"
| "bolfree (Alt r1 r2) = (bolfree r1 \<and> bolfree r2)"
| "bolfree (Grp k r) = bolfree r"
| "bolfree r = True"

definition shift :: "ustring \<Rightarrow> cursor \<times> groups \<Rightarrow> cursor \<times> groups" where
  "shift b st = ((fst (fst st) @ b, snd (fst st)), snd st)"

lemma star_ends_shift:
  "star_ends greedy P (b1 @ b, s) = map (\<lambda>cur. (fst cur @ b, snd cur)) (star_ends greedy P (b1, s))"
proof (induction s arbitrary: b1)
  case Nil
  show ?case by simp
next
  case (Cons c s)
  show ?case using Cons[of "c # b1"] by (cases greedy) simp_all
qed

lemma star_ends_length:
  "cur' \<in> set (star_ends greedy P cur) \<Longrightarrow> length (fst cur) \<le> length (fst cur')"
  using star_ends_reach[of cur' greedy P cur] by (auto simp: reach_def)

lemma ms_length:
  "st' \<in> set (ms r (cur, g)) \<Longrightarrow> length (fst cur) \<le> length (fst (fst st'))"
  using ms_reach[of "fst st'" "snd st'" r cur g] by (auto simp: reach_def)

lemma between_shift:
  "length b1 \<le> length x \<Longrightarrow> between (b1 @ b, s) (x @ b, s') = between (b1, s) (x, s')"
  by (simp add: between_def)

lemma ms_shift:
  "bolfree r \<Longrightarrow> ms r ((b1 @ b, s), g) = map (shift b) (ms r ((b1, s), g))"
proof (induction r arbitrary: b1 s g)
  case Eps
  show ?case by (simp add: shift_def)
next
  case (Cls P)
  show ?case by (cases s) (simp_all add: shift_def)
next
  case (Seq r1 r2)
  have A: "ms r2 (shift b st) = map (shift b) (ms r2 st)" for st
    using Seq.IH(2)[of "fst (fst st)" "snd (fst st)" "snd st"] Seq.prems
    by (simp add: shift_def)
  show ?case
    using Seq.IH(1)[of b1 s g] Seq.prems by (simp add: map_concat comp_def A)
next
  case (Alt r1 r2)
  then show ?case by simp
next
  case (Star greedy P)
  show ?case by (simp add: star_ends_shift shift_def)
next
  case (Grp k r)
  have "map (\<lambda>(cur', g'). (cur', g'(k \<mapsto> between (b1 @ b, s) cur'))) (map (shift b) xs)
          = map (shift b) (map (\<lambda>(cur', g'). (cur', g'(k \<mapsto> between (b1, s) cur'))) xs)"
    if "\<forall>st' \<in> set xs. length b1 \<le> length (fst (fst st'))" for xs
    using that
    by (induction xs) (auto simp: shift_def between_def)
  moreover have "\<forall>st' \<in> set (ms r ((b1, s), g)). length b1 \<le> length (fst (fst st'))"
    using ms_length[of _ r "(b1, s)" g] by auto
  ultimately show ?case
    using Grp.IH[of b1 s g] Grp.prems by simp
next
  case Bol
  then show ?case by simp
qed

lemma first_match_shift:
  "bolfree r \<Longrightarrow>
   first_match r must (b1 @ b, s) = map_option (shift b) (first_match r must (b1, s))"
proof -
  assume "bolfree r"
  then have m: "ms r ((b1 @ b, s), Map.empty) = map (shift b) (ms r ((b1, s), Map.empty))"
    by (rule ms_shift)
  have "List.find Q (map (shift b) xs) = map_option (shift b) (List.find (Q \<circ> shift b) xs)" for Q xs
    by (induction xs) auto
  then show ?thesis
    unfolding first_match_def m
    by (simp add: comp_def shift_def case_prod_unfold)
qed


definition local_repl :: "(py_match \<Rightarrow> ustring) \<Rightarrow> bool" where
  "local_repl repl =
     (\<forall>m m'. m_group0 m = m_group0 m' \<and> m_groups m = m_groups m' \<longrightarrow> repl m = repl m')"

lemma first_match_length:
  "first_match r must cur = Some res \<Longrightarrow> length (fst cur) \<le> length (fst (fst res))"
  using first_match_reach[of r must cur res] by (auto simp: reach_def)

lemma mk_match_shift:
  assumes "length b1 \<le> length (fst (fst res))"
  shows "m_group0 (mk_match (b1 @ b, s) (shift b res)) = m_group0 (mk_match (b1, s) res)"
    and "m_groups (mk_match (b1 @ b, s) (shift b res)) = m_groups (mk_match (b1, s) res)"
  using assms by (simp_all add: mk_match_def shift_def between_def)

lemma sub_from_shift_aux:
  "bolfree r \<Longrightarrow> local_repl repl \<Longrightarrow>
   \<forall>b. sub_from r repl must (fst cur @ b, snd cur) = sub_from r repl must cur"
proof (induction r repl must cur rule: sub_from.induct)
  case (1 r repl must cur)
  obtain b1 s where cur: "cur = (b1, s)" by (cases cur)
  show ?case
  proof
    fix b
    have fm: "first_match r must (b1 @ b, s) = map_option (shift b) (first_match r must (b1, s))"
      using 1(3) by (rule first_match_shift)
    show "sub_from r repl must (fst cur @ b, snd cur) = sub_from r repl must cur"
    proof (cases "first_match r must (b1, s)")
      case None
      show ?thesis
      proof (cases s)
        case Nil
        then show ?thesis
          using None fm cur by (simp add: sub_from_Nil)
      next
        case (Cons c s')
        have "sub_from r repl False (c # b1 @ b, s') = sub_from r repl False (c # b1, s')"
          using 1(1)[OF None[folded cur] cur[symmetric] Cons 1(3,4)] by simp
        then show ?thesis
          using None fm cur Cons by (simp add: sub_from_skip)
      qed
    next
      case (Some res)
      have len: "length b1 \<le> length (fst (fst res))"
        using first_match_length[OF Some] by simp
      have fm': "first_match r must (b1 @ b, s) = Some (shift b res)"
        using fm Some by simp
      have r: "repl (mk_match (b1 @ b, s) (shift b res)) = repl (mk_match (b1, s) res)"
        using 1(4) mk_match_shift[OF len] unfolding local_repl_def by blast
      have ih: "sub_from r repl (snd (fst res) = s) (fst (fst res) @ b, snd (fst res))
                  = sub_from r repl (snd (fst res) = s) (fst res)"
        using 1(2)[OF Some[folded cur] 1(3,4)] cur by simp
      show ?thesis
        unfolding cur
        by (simp add: sub_from_match[OF fm'] sub_from_match[OF Some] r)
           (simp add: shift_def ih)
    qed
  qed
qed

lemma sub_from_shift:
  "bolfree r \<Longrightarrow> local_repl repl \<Longrightarrow> sub_from r repl False (b, s) = py_sub r repl s"
  using sub_from_shift_aux[of r repl False "([], s)"] by (simp add: py_sub_def)


lemma sub_from_skip_prefix:
  assumes "\<And>x1 x2. p = x1 @ x2 \<Longrightarrow> x2 \<noteq> [] \<Longrightarrow> first_match r False (rev x1 @ b, x2 @ s) = None"
  shows "sub_from r repl False (b, p @ s) = p @ sub_from r repl False (rev p @ b, s)"
  using assms
proof (induction p arbitrary: b)
  case Nil
  show ?case by simp
next
  case (Cons c p)
  have "first_match r False (b, c # p @ s) = None"
    using Cons.prems[of "[]" "c # p"] by simp
  moreover have "sub_from r repl False (c # b, p @ s) = p @ sub_from r repl False (rev p @ c # b, s)"
  proof (rule Cons.IH)
    fix x1 x2 assume "p = x1 @ x2" "x2 \<noteq> []"
    then show "first_match r False (rev x1 @ c # b, x2 @ s) = None"
      using Cons.prems[of "c # x1" x2] by simp
  qed
  ultimately show ?case by (simp add: sub_from_skip)
qed

lemma py_sub_prefix:
  assumes "bolfree r" "local_repl repl"
      and "\<And>x1 x2. p = x1 @ x2 \<Longrightarrow> x2 \<noteq> [] \<Longrightarrow> first_match r False (rev x1, x2 @ s) = None"
  shows "py_sub r repl (p @ s) = p @ py_sub r repl s"
proof -
  have "sub_from r repl False ([], p @ s) = p @ sub_from r repl False (rev p @ [], s)"
    by (rule sub_from_skip_prefix) (use assms(3) in simp)
  then show ?thesis
    using sub_from_shift[OF assms(1,2), of "rev p" s] by (simp add: py_sub_def)
qed

lemma py_sub_match:
  assumes "bolfree r" "local_repl repl"
      and "first_match r False ([], m @ s) = Some ((rev m, s), g)" "m \<noteq> []"
  shows "py_sub r repl (m @ s)
           = repl \<lparr> m_start = 0, m_end = length m, m_group0 = m, m_groups = g \<rparr> @ py_sub r repl s"
proof -
  have "mk_match ([], m @ s) ((rev m, s), g)
          = \<lparr> m_start = 0, m_end = length m, m_group0 = m, m_groups = g \<rparr>"
    by (simp add: mk_match_def between_def)
  moreover have "sub_from r repl False (rev m, s) = py_sub r repl s"
    by (rule sub_from_shift[OF assms(1,2)])
  ultimately show ?thesis
    using assms(4) by (simp add: py_sub_def sub_from_match[OF assms(3)])
qed

lemma py_sub_Nil: "first_match r False ([], []) = None \<Longrightarrow> py_sub r repl [] = []"
  by (simp add: py_sub_def sub_from_Nil)

section \<open>Spans of a document with a known beginning\<close>

lemma spans_from_Nil:
  "first_match r must (b, []) = None \<Longrightarrow> spans_from r must (b, []) gap = prose (rev gap)"
  by (subst spans_from.simps) simp

lemma spans_from_skip:
  "first_match r must (b, c # s) = None \<Longrightarrow>
   spans_from r must (b, c # s) gap = spans_from r False (c # b, s) (c # gap)"
  by (subst spans_from.simps) simp

lemma spans_from_match:
  "first_match r must cur = Some res \<Longrightarrow>
   spans_from r must cur gap
     = prose (rev gap) @ Code (between cur (fst res))
         # spans_from r (snd (fst res) = snd cur) (fst res) []"
  by (subst spans_from.simps) simp

lemma spans_from_shift_aux:
  "bolfree r \<Longrightarrow> \<forall>b. spans_from r must (fst cur @ b, snd cur) gap = spans_from r must cur gap"
proof (induction r must cur gap rule: spans_from.induct)
  case (1 r must cur gap)
  obtain b1 s where cur: "cur = (b1, s)" by (cases cur)
  show ?case
  proof
    fix b
    have fm: "first_match r must (b1 @ b, s) = map_option (shift b) (first_match r must (b1, s))"
      using 1(3) by (rule first_match_shift)
    show "spans_from r must (fst cur @ b, snd cur) gap = spans_from r must cur gap"
    proof (cases "first_match r must (b1, s)")
      case None
      show ?thesis
      proof (cases s)
        case Nil
        then show ?thesis
          using None fm cur by (simp add: spans_from_Nil)
      next
        case (Cons c s')
        have "spans_from r False (c # b1 @ b, s') (c # gap) = spans_from r False (c # b1, s') (c # gap)"
          using 1(1)[OF None[folded cur] cur[symmetric] Cons 1(3)] by simp
        then show ?thesis
          using None fm cur Cons by (simp add: spans_from_skip)
      qed
    next
      case (Some res)
      have len: "length b1 \<le> length (fst (fst res))"
        using first_match_length[OF Some] by simp
      have fm': "first_match r must (b1 @ b, s) = Some (shift b res)"
        using fm Some by simp
      have bt: "between (b1 @ b, s) (fst (shift b res)) = between (b1, s) (fst res)"
        using len by (simp add: shift_def between_def)
      have ih: "spans_from r (snd (fst res) = s) (fst (fst res) @ b, snd (fst res)) []
                  = spans_from r (snd (fst res) = s) (fst res) []"
        using 1(2)[OF Some[folded cur] 1(3)] cur by simp
      show ?thesis
        unfolding cur
        by (simp add: spans_from_match[OF fm'] spans_from_match[OF Some] bt)
           (simp add: shift_def ih)
    qed
  qed
qed

lemma spans_from_shift:
  "bolfree r \<Longrightarrow> spans_from r must (b, s) gap = spans_from r must ([], s) gap"
  using spans_from_shift_aux[of r must "([], s)" gap] by simp

fun with_gap :: "ustring \<Rightarrow> span list \<Rightarrow> span list" where
  "with_gap p (Prose g # rest) = Prose (p @ g) # rest"
| "with_gap p sps = prose p @ sps"

lemma with_gap_Nil: "with_gap [] sps = sps"
  by (induction "[] :: ustring" sps rule: with_gap.induct) (simp_all add: prose_def)

lemma with_gap_prose: "with_gap p (prose g) = prose (p @ g)"
  by (simp add: prose_def)

lemma with_gap_with_gap: "with_gap p (with_gap q sps) = with_gap (p @ q) sps"
  by (induction q sps rule: with_gap.induct) (simp_all add: prose_def)

lemma spans_from_gap_aux:
  "\<forall>gap. spans_from r must cur gap = with_gap (rev gap) (spans_from r must cur [])"
proof (induction r must cur rule: scan.induct)
  case (1 r must cur)
  obtain b s where cur: "cur = (b, s)" by (cases cur)
  show ?case
  proof
    fix gap
    show "spans_from r must cur gap = with_gap (rev gap) (spans_from r must cur [])"
    proof (cases "first_match r must cur")
      case (Some res)
      show ?thesis
        by (simp add: spans_from_match[OF Some] prose_def)
    next
      case None
      show ?thesis
      proof (cases s)
        case Nil
        then show ?thesis
          using None cur by (simp add: spans_from_Nil with_gap_prose)
      next
        case (Cons c s')
        have ih: "spans_from r False (c # b, s') g = with_gap (rev g) (spans_from r False (c # b, s') [])" for g
          using 1(1)[OF None cur[symmetric] Cons] by blast
        have "spans_from r must cur gap = with_gap (rev (c # gap)) (spans_from r False (c # b, s') [])"
          using None cur Cons by (simp add: spans_from_skip ih[of "c # gap"])
        moreover have "spans_from r must cur [] = with_gap [c] (spans_from r False (c # b, s') [])"
          using None cur Cons by (simp add: spans_from_skip ih[of "[c]"])
        ultimately show ?thesis by (simp add: with_gap_with_gap)
      qed
    qed
  qed
qed


lemma spans_from_gap: "spans_from r must cur gap = with_gap (rev gap) (spans_from r must cur [])"
  using spans_from_gap_aux by blast

lemma spans_from_skip_prefix:
  assumes "\<And>x1 x2. p = x1 @ x2 \<Longrightarrow> x2 \<noteq> [] \<Longrightarrow> first_match r False (rev x1 @ b, x2 @ s) = None"
  shows "spans_from r False (b, p @ s) gap = spans_from r False (rev p @ b, s) (rev p @ gap)"
  using assms
proof (induction p arbitrary: b gap)
  case Nil
  show ?case by simp
next
  case (Cons c p)
  have "first_match r False (b, c # p @ s) = None"
    using Cons.prems[of "[]" "c # p"] by simp
  moreover have "spans_from r False (c # b, p @ s) (c # gap)
                   = spans_from r False (rev p @ c # b, s) (rev p @ c # gap)"
  proof (rule Cons.IH)
    fix x1 x2 assume "p = x1 @ x2" "x2 \<noteq> []"
    then show "first_match r False (rev x1 @ c # b, x2 @ s) = None"
      using Cons.prems[of "c # x1" x2] by simp
  qed
  ultimately show ?case by (simp add: spans_from_skip)
qed

lemma leads_first_match:
  "leads r (cur, Map.empty) res \<Longrightarrow> snd (fst res) \<noteq> snd cur \<Longrightarrow> first_match r must cur = Some res"
  by (auto simp: leads_def intro: first_match_Some)

lemma avoid_spec_rewrite:
  "avoid_process_code_blocks s f flag = spec_rewrite f (spec_spans flag s)"
  unfolding avoid_process_code_blocks_finish finditer_def spec_spans_def
  by (subst loop_spans[where gap="[]" and ?b0.0="[]"]) simp_all

definition nocode :: "ustring \<Rightarrow> bool" where
  "nocode p = (\<forall>c \<in> set p. c \<noteq> 96 \<and> c \<noteq> 126)"

lemma bolfree_lit: "bolfree (lit w)"
  by (induction w) simp_all

lemma bolfree_code: "bolfree (code_block_pattern flag)"
  by (simp add: code_block_pattern_def bolfree_lit)

lemma code_no_match:
  "c \<noteq> 96 \<Longrightarrow> c \<noteq> 126 \<Longrightarrow> first_match (code_block_pattern flag) False (b, c # s) = None"
  by (simp add: first_match_def code_block_pattern_def)

lemma code_no_match_Nil: "first_match (code_block_pattern flag) False (b, []) = None"
  by (simp add: first_match_def code_block_pattern_def)

lemma spec_spans_Nil: "spec_spans flag [] = []"
  by (simp add: spec_spans_def spans_from_Nil code_no_match_Nil prose_def)

lemma spec_spans_prefix:
  assumes "nocode p"
  shows "spec_spans flag (p @ s) = with_gap p (spec_spans flag s)"
proof -
  have "spans_from (code_block_pattern flag) False ([], p @ s) []
          = spans_from (code_block_pattern flag) False (rev p @ [], s) (rev p @ [])"
  proof (rule spans_from_skip_prefix)
    fix x1 x2 assume "p = x1 @ x2" "x2 \<noteq> []"
    then obtain c x2' where "x2 = c # x2'" "c \<noteq> 96" "c \<noteq> 126"
      using assms by (cases x2) (auto simp: nocode_def)
    then show "first_match (code_block_pattern flag) False (rev x1 @ [], x2 @ s) = None"
      by (simp add: code_no_match)
  qed
  also have "\<dots> = spans_from (code_block_pattern flag) False ([], s) (rev p)"
    using spans_from_shift[OF bolfree_code, of flag False "rev p" s "rev p"] by simp
  also have "\<dots> = with_gap p (spans_from (code_block_pattern flag) False ([], s) [])"
    using spans_from_gap[of _ False "([], s)" "rev p"] by simp
  finally show ?thesis by (simp add: spec_spans_def)
qed

lemma spec_spans_code:
  assumes "first_match (code_block_pattern flag) False ([], F @ s) = Some ((rev F, s), g)" "F \<noteq> []"
  shows "spec_spans flag (F @ s) = Code F # spec_spans flag s"
proof -
  have "s \<noteq> F @ s" using assms(2) by (metis append_self_conv2)
  then show ?thesis
    unfolding spec_spans_def
    using spans_from_shift[OF bolfree_code, of flag False "rev F" s "[]"]
    by (simp add: spans_from_match[OF assms(1)] prose_def between_def)
qed

lemma avoid_Nil: "avoid_process_code_blocks [] f flag = []"
  by (simp add: avoid_spec_rewrite spec_spans_Nil spec_rewrite_def)

lemma avoid_prefix:
  assumes "nocode p" "\<And>g. f (p @ g) = q @ f g" "f [] = []"
  shows "avoid_process_code_blocks (p @ s) f flag = q @ avoid_process_code_blocks s f flag"
proof -
  have fp: "f p = q" using assms(2)[of "[]"] assms(3) by simp
  have q: "p = [] \<Longrightarrow> q = []" using fp assms(3) by simp
  show ?thesis
  proof (cases "spec_spans flag s")
    case Nil
    then show ?thesis
      using fp q by (simp add: avoid_spec_rewrite spec_spans_prefix[OF assms(1)]
          spec_rewrite_def prose_def)
  next
    case (Cons sp sps)
    then show ?thesis
      using fp q assms(2)
      by (cases sp) (simp_all add: avoid_spec_rewrite spec_spans_prefix[OF assms(1)]
          spec_rewrite_def prose_def)
  qed
qed

lemma avoid_prefix_code:
  assumes "nocode p"
      and "first_match (code_block_pattern flag) False ([], F @ s) = Some ((rev F, s), g)" "F \<noteq> []"
      and "f [] = []"
  shows "avoid_process_code_blocks (p @ F @ s) f flag = f p @ F @ avoid_process_code_blocks s f flag"
  using assms(4)
  by (simp add: avoid_spec_rewrite spec_spans_prefix[OF assms(1)] spec_spans_code[OF assms(2,3)]
      spec_rewrite_def prose_def)

lemma fence_match:
  assumes "96 \<notin> set body"
  shows "\<exists>g. first_match (code_block_pattern flag) False ([], asc ''```'' @ body @ asc ''```'' @ s)
           = Some ((rev (asc ''```'' @ body @ asc ''```''), s), g)"
proof -
  let ?T = "asc ''```''"
  let ?K = "\<lambda>cur. ms (seq [lit ?T]) (cur, Map.empty)"
  have fail: "?K (rev x1 @ rev ?T, x2 @ ?T @ s) = []" if "body = x1 @ x2" "x2 \<noteq> []" for x1 x2
  proof -
    from that obtain c x2' where x2: "x2 = c # x2'" by (cases x2) auto
    with that(1) assms have "c \<noteq> 96" by auto
    with x2 show ?thesis by simp
  qed
  have ok: "?K (rev body @ rev ?T, ?T @ s) = [((rev ?T @ rev body @ rev ?T, s), Map.empty)]"
    by simp
  obtain zs where z: "concat (map ?K (star_ends False any_char (rev ?T, body @ ?T @ s)))
                        = ((rev ?T @ rev body @ rev ?T, s), Map.empty) # zs"
    using lazy_first[where K="?K" and P=any_char and x=body and b="rev ?T" and s="?T @ s", OF _ fail ok]
    by (auto simp: any_char_def)
  have B: "leads (seq [lit ?T, Star False any_char, lit ?T]) (([], ?T @ body @ ?T @ s), Map.empty)
             ((rev ?T @ rev body @ rev ?T, s), Map.empty)"
    unfolding leads_def using z by (simp add: comp_def)
  have A: "ms (seq [lit (asc ''~~~''), Star False any_char, lit (asc ''~~~'')])
             (([], ?T @ body @ ?T @ s), Map.empty) = []"
    by simp
  have "\<exists>g. leads (code_block_pattern flag) (([], ?T @ body @ ?T @ s), Map.empty)
             ((rev ?T @ rev body @ rev ?T, s), g)"
  proof (cases flag)
    case True
    have "leads (Alt (seq [lit (asc ''~~~''), Star False any_char, lit (asc ''~~~'')])
              (Alt (seq [lit ?T, Star False any_char, lit ?T])
                   (seq [lit (asc ''`''), Star True (\<lambda>c. c \<noteq> 96), lit (asc ''`'')])))
            (([], ?T @ body @ ?T @ s), Map.empty) ((rev ?T @ rev body @ rev ?T, s), Map.empty)"
      by (intro leads_Alt2[OF A] leads_Alt1 B)
    from leads_Grp[OF this, of 1] show ?thesis
      using True by (auto simp: code_block_pattern_def)
  next
    case False
    have "leads (Alt (seq [lit (asc ''~~~''), Star False any_char, lit (asc ''~~~'')])
                   (seq [lit ?T, Star False any_char, lit ?T]))
            (([], ?T @ body @ ?T @ s), Map.empty) ((rev ?T @ rev body @ rev ?T, s), Map.empty)"
      by (intro leads_Alt2[OF A] B)
    from leads_Grp[OF this, of 1] show ?thesis
      using False by (auto simp: code_block_pattern_def)
  qed
  then obtain g where "leads (code_block_pattern flag) (([], ?T @ body @ ?T @ s), Map.empty)
             ((rev ?T @ rev body @ rev ?T, s), g)" by blast
  then have "first_match (code_block_pattern flag) False ([], ?T @ body @ ?T @ s)
           = Some ((rev ?T @ rev body @ rev ?T, s), g)"
    by (rule leads_first_match) simp
  then show ?thesis by auto
qed


section \<open>The content transforms\<close>

subsection \<open>The first-level title remover\<close>



text \<open>
  The same transform in words, without a pattern. A heading starts at a line end followed
  by \<open>#\<close> and goes on with a run of whitespace, a non-empty stretch of characters other than
  the line end, and the line end that closes it. \<open>spec_line_after x\<close> is the text after the
  line that starts \<open>x\<close>, when that line is not empty and is closed by a line end.
  \<open>spec_heading_ws U r\<close> is the text after the heading whose whitespace begins \<open>r\<close>: the
  whitespace run is taken as long as possible, line ends included, and then shortened until
  a closed line follows it. \<open>spec_strip_headings\<close> reads the text from left to right, deletes
  each heading it meets and goes on after the line end that closes it.
\<close>

definition spec_line_after :: "ustring \<Rightarrow> ustring option" where
  "spec_line_after x =
     (if takeWhile (\<lambda>c. c \<noteq> 10) x \<noteq> [] \<and> dropWhile (\<lambda>c. c \<noteq> 10) x \<noteq> []
      then Some (tl (dropWhile (\<lambda>c. c \<noteq> 10) x)) else None)"

fun spec_heading_ws :: "ucd \<Rightarrow> ustring \<Rightarrow> ustring option" where
  "spec_heading_ws U [] = None"
| "spec_heading_ws U (c # r) =
     (if py_isspace U c
      then (case spec_heading_ws U r of Some rest \<Rightarrow> Some rest | None \<Rightarrow> spec_line_after r)
      else None)"

fun spec_heading_at :: "ucd \<Rightarrow> ustring \<Rightarrow> ustring option" where
  "spec_heading_at U (c # d # r) = (if c = 10 \<and> d = 35 then spec_heading_ws U r else None)"
| "spec_heading_at U [c] = None"
| "spec_heading_at U [] = None"

lemma spec_line_after_length: "spec_line_after x = Some rest \<Longrightarrow> length rest < length x"
proof -
  assume a: "spec_line_after x = Some rest"
  have "length (dropWhile (\<lambda>c. c \<noteq> 10) x) \<le> length x" by (rule length_dropWhile_le)
  moreover from a have "dropWhile (\<lambda>c. c \<noteq> 10) x \<noteq> []" "rest = tl (dropWhile (\<lambda>c. c \<noteq> 10) x)"
    by (auto simp: spec_line_after_def split: if_splits)
  ultimately show ?thesis by (cases "dropWhile (\<lambda>c. c \<noteq> 10) x") auto
qed

lemma spec_heading_ws_length: "spec_heading_ws U r = Some rest \<Longrightarrow> length rest < length r"
proof (induction r)
  case Nil
  then show ?case by simp
next
  case (Cons c r)
  then show ?case
    by (auto split: if_splits option.splits dest: spec_line_after_length)
qed

lemma spec_heading_at_length: "spec_heading_at U x = Some rest \<Longrightarrow> length rest < length x"
  by (induction U x rule: spec_heading_at.induct)
     (auto split: if_splits dest: spec_heading_ws_length)

function spec_strip_headings :: "ucd \<Rightarrow> ustring \<Rightarrow> ustring" where
  "spec_strip_headings U [] = []"
| "spec_strip_headings U (c # s) =
     (case spec_heading_at U (c # s) of
        Some rest \<Rightarrow> spec_strip_headings U rest
      | None \<Rightarrow> c # spec_strip_headings U s)"
  by pat_completeness auto

termination
proof (relation "measure (\<lambda>(U, s). length s)", goal_cases)
  case 1
  show ?case by simp
next
  case (2 U c s)
  show ?case by simp
next
  case (3 U c s rest)
  then show ?case using spec_heading_at_length[of U "c # s" rest] by simp
qed

text \<open>
  Fences. \<open>fence_start x\<close>: the text \<open>x\<close> begins with three tildes or three backquotes.
  \<open>no_fence_start a s\<close>: in the text \<open>a @ s\<close> no position of \<open>a\<close> begins a fence.
  \<open>first_close f body\<close>: in \<open>body @ f\<close> the fence string \<open>f\<close> occurs first at the end.
\<close>

definition fences :: "ustring list" where
  "fences = [asc ''~~~'', asc ''```'']"



fun first_close :: "ustring \<Rightarrow> ustring \<Rightarrow> bool" where
  "first_close f [] = True"
| "first_close f (c # body) = (take 3 (c # body @ f) \<noteq> f \<and> first_close f body)"


subsection \<open>The pattern and the heading in words\<close>

definition heading_nobol :: "ucd \<Rightarrow> re" where
  "heading_nobol U =
     seq [lit [10], lit (asc ''#''), plus_re True (py_isspace U), plus_re True dot, lit [10]]"



lemma bolfree_heading: "bolfree (heading_nobol U)"
  by (simp add: heading_nobol_def plus_re_def)

lemma local_repl_const: "local_repl (\<lambda>m. t)"
  by (simp add: local_repl_def)

text \<open>
  A greedy repetition followed by something that cannot begin with a repeated character:
  only the longest repetition is followed by a match.
\<close>

lemma greedy_then:
  assumes "\<And>b c s. P c \<Longrightarrow> K (b, c # s) = []"
  shows "concat (map K (star_ends True P (b, s))) = K (rev (takeWhile P s) @ b, dropWhile P s)"
proof (induction s arbitrary: b)
  case Nil
  show ?case by simp
next
  case (Cons c s)
  show ?case using Cons[of "c # b"] assms[of c b s] by simp
qed

















subsection \<open>Fences and the text before them\<close>


lemma first_close_split:
  "first_close f body \<Longrightarrow> body = x1 @ x2 \<Longrightarrow> x2 \<noteq> [] \<Longrightarrow> take 3 (x2 @ f) \<noteq> f"
proof (induction body arbitrary: x1)
  case Nil
  then show ?case by simp
next
  case (Cons c body)
  show ?case
  proof (cases x1)
    case Nil
    then show ?thesis using Cons.prems by auto
  next
    case (Cons d x1')
    then show ?thesis using Cons.IH[of x1'] Cons.prems by auto
  qed
qed




lemma fence_first_close:
  assumes "f \<in> set fences" "first_close f body"
  shows "\<exists>g. first_match (code_block_pattern flag) False ([], f @ body @ f @ s)
           = Some ((rev (f @ body @ f), s), g)"
proof -
  have lf: "length f = 3" using assms(1) by (auto simp: fences_def)
  let ?K = "\<lambda>cur. ms (seq [lit f]) (cur, Map.empty)"
  let ?A1 = "seq [lit (asc ''~~~''), Star False any_char, lit (asc ''~~~'')]"
  let ?A2 = "seq [lit (asc ''```''), Star False any_char, lit (asc ''```'')]"
  let ?A3 = "seq [lit (asc ''`''), Star True (\<lambda>c. c \<noteq> 96), lit (asc ''`'')]"
  let ?st = "(([], f @ body @ f @ s), Map.empty :: groups)"
  let ?y = "((rev f @ rev body @ rev f, s), Map.empty :: groups)"
  have fail: "?K (rev x1 @ rev f, x2 @ f @ s) = []" if "body = x1 @ x2" "x2 \<noteq> []" for x1 x2
  proof -
    have "take 3 (x2 @ f) \<noteq> f" using first_close_split[OF assms(2) that] .
    moreover have "take 3 (x2 @ f @ s) = take 3 (x2 @ f)"
      using lf that(2) by (cases x2) auto
    ultimately have "take (length f) (x2 @ f @ s) \<noteq> f" using lf by simp
    then show ?thesis by (simp add: ms_lit)
  qed
  have ok: "?K (rev body @ rev f, f @ s) = [((rev f @ rev body @ rev f, s), Map.empty)]"
    by (simp add: ms_lit)
  obtain zs where z: "concat (map ?K (star_ends False any_char (rev f, body @ f @ s))) = ?y # zs"
    using lazy_first[where K="?K" and P=any_char and x=body and b="rev f" and s="f @ s", OF _ fail ok]
    by (auto simp: any_char_def)
  have "ms (Seq (lit f) (Seq (Star False any_char) (seq [lit f]))) ?st
          = concat (map ?K (star_ends False any_char (rev f, body @ f @ s)))"
    by (simp add: ms_lit_append comp_def del: seq.simps)
  then have B: "leads (seq [lit f, Star False any_char, lit f]) ?st ?y"
    unfolding leads_def using z by simp
  have "leads (if flag then Alt ?A1 (Alt ?A2 ?A3) else Alt ?A1 ?A2) ?st ?y"
  proof (cases "f = asc ''~~~''")
    case True
    have "leads ?A1 ?st ?y" using B unfolding True .
    then show ?thesis by (simp add: leads_Alt1 del: seq.simps)
  next
    case False
    then have f: "f = asc ''```''" using assms(1) by (auto simp: fences_def)
    have A: "ms ?A1 ?st = []"
      unfolding f by simp
    have "leads ?A2 ?st ?y" using B unfolding f .
    then show ?thesis
      using leads_Alt2[OF A] by (simp add: leads_Alt1 del: seq.simps)
  qed
  from leads_Grp[OF this, of 1]
  obtain g where "leads (code_block_pattern flag) ?st ((rev f @ rev body @ rev f, s), g)"
    by (cases flag) (auto simp: code_block_pattern_def)
  then have "first_match (code_block_pattern flag) False ([], f @ body @ f @ s)
           = Some ((rev f @ rev body @ rev f, s), g)"
    using lf by (intro leads_first_match) auto
  then show ?thesis by auto
qed

lemma spec_strip_headings_Nil: "spec_strip_headings U [] = []"
  by simp




subsection \<open>The shape of a heading\<close>





lemmas rewriter_simps = avoid_process_code_blocks_def finditer_def scan.simps code_block_pattern_def
  first_match_def mk_match_def between_def slice_def any_char_def py_sub_def sub_from.simps
  py_isspace_def dot_def plus_re_def Let_def






subsection \<open>The image path stripper\<close>

text \<open>
  The first pattern is built by putting \<open>img_dir\<close> into the pattern text as it is, the second
  by putting in \<open>re.escape(img_dir)\<close>. A string without regex metacharacters stands for
  itself in a pattern, so for such an \<open>img_dir\<close> (the default \<open>img/\<close>, which is what the
  program passes) both are the literal \<open>lit img_dir\<close>. \<open>literal_dir\<close> marks these
  strings; the model is the program for them, and the theorems below assume it.
\<close>

definition literal_dir :: "ustring \<Rightarrow> bool" where
  "literal_dir d = (\<forall>c \<in> set d. c \<notin> set (asc ''.^$*+?{}[]|()'') \<and> c \<noteq> 92)"

definition quote :: "uchar \<Rightarrow> bool" where
  "quote c = (c = 34 \<or> c = 39)"

definition img_insert_pattern :: "ustring \<Rightarrow> re" where
  "img_insert_pattern img_dir =
     seq [lit (asc ''[''), Grp 1 (Star False dot), lit (asc ''](''), opt (Grp 2 (lit img_dir)),
          Grp 3 (plus_re True (\<lambda>c. c \<noteq> 41)), lit (asc '')'')]"

definition html_img_tag_pattern :: "ucd \<Rightarrow> ustring \<Rightarrow> re" where
  "html_img_tag_pattern U img_dir =
     seq [lit (asc ''<img''), plus_re True (py_isspace U), lit (asc ''src=''), Cls quote,
          lit img_dir, Grp 1 (plus_re True (\<lambda>c. \<not> quote c)), Cls quote]"

definition replace_img_path :: "py_match \<Rightarrow> ustring" where
  "replace_img_path m = asc ''['' @ group m 1 @ asc ''](''  @ group m 3 @ asc '')''"

definition replace_html_img_src :: "py_match \<Rightarrow> ustring" where
  "replace_html_img_src m = asc ''<img src='' @ [34] @ group m 1 @ [34]"

definition img_process_non_code :: "ucd \<Rightarrow> ustring \<Rightarrow> ustring \<Rightarrow> ustring" where
  "img_process_non_code U img_dir text =
     py_sub (html_img_tag_pattern U img_dir) replace_html_img_src
       (py_sub (img_insert_pattern img_dir) replace_img_path text)"

definition remove_img_path_in_md :: "ucd \<Rightarrow> ustring \<Rightarrow> ustring \<Rightarrow> ustring" where
  "remove_img_path_in_md U content img_dir =
     avoid_process_code_blocks content (img_process_non_code U img_dir) True"

text \<open>
  The same transform in words, without a pattern. \<open>spec_path_at x\<close>: the text \<open>x\<close> begins
  with a non-empty path without \<open>)\<close> that is closed by \<open>)\<close>; the result is the path and the
  text after the \<open>)\<close>. \<open>spec_target_at d x\<close>: the target of a link, which is the prefix \<open>d\<close>
  and a path or, when \<open>x\<close> has no such beginning, a path alone; the result is the path without
  the prefix. \<open>spec_label_scan\<close> looks for the shortest label, on one line, that is followed
  by \<open>](\<close> and a target. \<open>spec_link_pass\<close> reads the text from left to right and
  writes every link it meets as label and path, going on after the link.
\<close>

definition spec_path_at :: "ustring \<Rightarrow> (ustring \<times> ustring) option" where
  "spec_path_at x =
     (if takeWhile (\<lambda>c. c \<noteq> 41) x \<noteq> [] \<and> dropWhile (\<lambda>c. c \<noteq> 41) x \<noteq> []
      then Some (takeWhile (\<lambda>c. c \<noteq> 41) x, tl (dropWhile (\<lambda>c. c \<noteq> 41) x)) else None)"

definition spec_target_at :: "ustring \<Rightarrow> ustring \<Rightarrow> (ustring \<times> ustring) option" where
  "spec_target_at d x =
     (case (if take (length d) x = d then spec_path_at (drop (length d) x) else None) of
        Some pr \<Rightarrow> Some pr
      | None \<Rightarrow> spec_path_at x)"

definition spec_close_at :: "ustring \<Rightarrow> ustring \<Rightarrow> (ustring \<times> ustring) option" where
  "spec_close_at d x = (if take 2 x = asc ''](''  then spec_target_at d (drop 2 x) else None)"

fun spec_label_scan :: "ustring \<Rightarrow> ustring \<Rightarrow> ustring \<Rightarrow> (ustring \<times> ustring \<times> ustring) option" where
  "spec_label_scan d acc [] = None"
| "spec_label_scan d acc (c # r) =
     (case spec_close_at d (c # r) of
        Some (path, rest) \<Rightarrow> Some (rev acc, path, rest)
      | None \<Rightarrow> if c = 10 then None else spec_label_scan d (c # acc) r)"

fun spec_link_at :: "ustring \<Rightarrow> ustring \<Rightarrow> (ustring \<times> ustring \<times> ustring) option" where
  "spec_link_at d [] = None"
| "spec_link_at d (c # r) = (if c = 91 then spec_label_scan d [] r else None)"

lemma spec_path_at_length: "spec_path_at x = Some (p, rest) \<Longrightarrow> length rest < length x"
proof -
  assume a: "spec_path_at x = Some (p, rest)"
  have "length (dropWhile (\<lambda>c. c \<noteq> 41) x) \<le> length x" by (rule length_dropWhile_le)
  moreover from a have "dropWhile (\<lambda>c. c \<noteq> 41) x \<noteq> []" "rest = tl (dropWhile (\<lambda>c. c \<noteq> 41) x)"
    by (auto simp: spec_path_at_def split: if_splits)
  ultimately show ?thesis by (cases "dropWhile (\<lambda>c. c \<noteq> 41) x") auto
qed

lemma spec_target_at_length: "spec_target_at d x = Some (p, rest) \<Longrightarrow> length rest < length x"
  by (auto simp: spec_target_at_def split: if_splits option.splits dest!: spec_path_at_length)

lemma spec_close_at_length: "spec_close_at d x = Some (p, rest) \<Longrightarrow> length rest < length x"
  by (auto simp: spec_close_at_def split: if_splits dest!: spec_target_at_length)

lemma spec_label_scan_length:
  "spec_label_scan d acc r = Some (l, p, rest) \<Longrightarrow> length rest < length r"
proof (induction r arbitrary: acc)
  case Nil
  then show ?case by simp
next
  case (Cons c r)
  show ?case
  proof (cases "spec_close_at d (c # r)")
    case None
    then show ?thesis using Cons.prems Cons.IH[of "c # acc"] by (auto split: if_splits)
  next
    case (Some pr)
    then show ?thesis using Cons.prems spec_close_at_length[of d "c # r"] by (cases pr) auto
  qed
qed

lemma spec_link_at_length: "spec_link_at d x = Some (l, p, rest) \<Longrightarrow> length rest < length x"
  by (cases x) (auto split: if_splits dest!: spec_label_scan_length)

function spec_link_pass :: "ustring \<Rightarrow> ustring \<Rightarrow> ustring" where
  "spec_link_pass d [] = []"
| "spec_link_pass d (c # s) =
     (case spec_link_at d (c # s) of
        Some (label, path, rest) \<Rightarrow>
          asc ''['' @ label @ asc ''](''  @ path @ asc '')'' @ spec_link_pass d rest
      | None \<Rightarrow> c # spec_link_pass d s)"
  by pat_completeness auto

termination
proof (relation "measure (\<lambda>(d, s). length s)", goal_cases)
  case 1
  show ?case by simp
next
  case (2 d c s)
  show ?case by simp
next
  case (3 d c s x2 label y path rest)
  then show ?case using spec_link_at_length[of d "c # s" label path rest] by simp
qed


text \<open>
  \<open>spec_quoted x\<close>: the text \<open>x\<close> begins with a non-empty name without quotes that is
  closed by a quote. \<open>spec_img_tag_at U d x\<close>: the text \<open>x\<close> begins with \<open><img\<close>,
  whitespace, \<open>src=\<close>, a quote, the prefix \<open>d\<close> and such a name; the result is the name and
  the text after its closing quote. \<open>spec_html_pass\<close> reads the text from left to right and
  writes every such tag beginning as \<open><img src="name"\<close>.
\<close>

definition spec_quoted :: "ustring \<Rightarrow> (ustring \<times> ustring) option" where
  "spec_quoted x =
     (if takeWhile (\<lambda>c. \<not> quote c) x \<noteq> [] \<and> dropWhile (\<lambda>c. \<not> quote c) x \<noteq> []
      then Some (takeWhile (\<lambda>c. \<not> quote c) x, tl (dropWhile (\<lambda>c. \<not> quote c) x)) else None)"

definition spec_src_at :: "ustring \<Rightarrow> ustring \<Rightarrow> (ustring \<times> ustring) option" where
  "spec_src_at d z =
     (if take 4 z = asc ''src='' then
        (case drop 4 z of
           [] \<Rightarrow> None
         | q # v \<Rightarrow> if quote q \<and> take (length d) v = d then spec_quoted (drop (length d) v) else None)
      else None)"

definition spec_img_tag_at :: "ucd \<Rightarrow> ustring \<Rightarrow> ustring \<Rightarrow> (ustring \<times> ustring) option" where
  "spec_img_tag_at U d x =
     (if take 4 x = asc ''<img'' \<and> takeWhile (py_isspace U) (drop 4 x) \<noteq> []
      then spec_src_at d (dropWhile (py_isspace U) (drop 4 x)) else None)"

lemma spec_quoted_length: "spec_quoted x = Some (p, rest) \<Longrightarrow> length rest < length x"
proof -
  assume a: "spec_quoted x = Some (p, rest)"
  have "length (dropWhile (\<lambda>c. \<not> quote c) x) \<le> length x" by (rule length_dropWhile_le)
  moreover from a have "dropWhile (\<lambda>c. \<not> quote c) x \<noteq> []" "rest = tl (dropWhile (\<lambda>c. \<not> quote c) x)"
    by (auto simp: spec_quoted_def split: if_splits)
  ultimately show ?thesis by (cases "dropWhile (\<lambda>c. \<not> quote c) x") auto
qed

lemma spec_src_at_length: "spec_src_at d z = Some (p, rest) \<Longrightarrow> length rest < length z"
proof -
  assume a: "spec_src_at d z = Some (p, rest)"
  then obtain q v where dz: "drop 4 z = q # v"
      and sq: "spec_quoted (drop (length d) v) = Some (p, rest)"
    by (auto simp: spec_src_at_def split: if_splits list.splits)
  have "length rest < length (drop (length d) v)" using sq by (rule spec_quoted_length)
  also have "\<dots> \<le> length v" by simp
  also have "\<dots> < length (drop 4 z)" using dz by simp
  also have "\<dots> \<le> length z" by simp
  finally show ?thesis .
qed

lemma spec_img_tag_at_length: "spec_img_tag_at U d x = Some (p, rest) \<Longrightarrow> length rest < length x"
proof -
  assume a: "spec_img_tag_at U d x = Some (p, rest)"
  then have "spec_src_at d (dropWhile (py_isspace U) (drop 4 x)) = Some (p, rest)"
    by (auto simp: spec_img_tag_at_def split: if_splits)
  then have "length rest < length (dropWhile (py_isspace U) (drop 4 x))"
    by (rule spec_src_at_length)
  also have "\<dots> \<le> length (drop 4 x)" by (rule length_dropWhile_le)
  also have "\<dots> \<le> length x" by simp
  finally show ?thesis .
qed

function spec_html_pass :: "ucd \<Rightarrow> ustring \<Rightarrow> ustring \<Rightarrow> ustring" where
  "spec_html_pass U d [] = []"
| "spec_html_pass U d (c # s) =
     (case spec_img_tag_at U d (c # s) of
        Some (name, rest) \<Rightarrow> asc ''<img src='' @ [34] @ name @ [34] @ spec_html_pass U d rest
      | None \<Rightarrow> c # spec_html_pass U d s)"
  by pat_completeness auto

termination
proof (relation "measure (\<lambda>(U, d, s). length s)", goal_cases)
  case 1
  show ?case by simp
next
  case (2 U d c s)
  show ?case by simp
next
  case (3 U d c s x2 name rest)
  then show ?case using spec_img_tag_at_length[of U d "c # s" name rest] by simp
qed

definition spec_strip_img :: "ucd \<Rightarrow> ustring \<Rightarrow> ustring \<Rightarrow> ustring" where
  "spec_strip_img U d text = spec_html_pass U d (spec_link_pass d text)"

subsection \<open>The link pattern and the link in words\<close>

lemma between_rev: "between (b, s) (rev x @ b, s') = x"
  by (simp add: between_def)

definition path_re :: re where
  "path_re = seq [Grp 3 (plus_re True (\<lambda>c. c \<noteq> 41)), lit (asc '')'')]"

definition target_re :: "ustring \<Rightarrow> re" where
  "target_re d = Seq (opt (Grp 2 (lit d))) path_re"

definition close_re :: "ustring \<Rightarrow> re" where
  "close_re d = Seq (lit (asc ''](''))  (target_re d)"

lemma img_insert_pattern_close:
  "img_insert_pattern d = Seq (lit (asc ''['')) (Seq (Grp 1 (Star False dot)) (close_re d))"
  by (simp add: img_insert_pattern_def close_re_def target_re_def path_re_def)

lemma ms_path_re:
  "ms path_re ((B, x), g) =
     (case spec_path_at x of
        Some (p, rest) \<Rightarrow> [((41 # rev p @ B, rest), g(3 \<mapsto> p))]
      | None \<Rightarrow> [])"
proof (cases x)
  case Nil
  then show ?thesis by (simp add: path_re_def plus_re_def spec_path_at_def)
next
  case (Cons c x')
  let ?np = "\<lambda>c::uchar. c \<noteq> 41"
  let ?K = "\<lambda>cur'. ms (seq [lit (asc '')'')]) (cur', g(3 \<mapsto> between (B, x) cur'))"
  have K: "?K (b, e # s) = []" if "?np e" for b e s
    using that by simp
  show ?thesis
  proof (cases "c = 41")
    case True
    then show ?thesis using Cons by (simp add: path_re_def plus_re_def spec_path_at_def)
  next
    case False
    have "ms path_re ((B, x), g) = concat (map ?K (star_ends True ?np (c # B, x')))"
      using False Cons by (simp add: path_re_def plus_re_def comp_def)
    also have "\<dots> = ?K (rev (takeWhile ?np x') @ c # B, dropWhile ?np x')"
      by (rule greedy_then) (rule K)
    finally have eq: "ms path_re ((B, x), g) = ?K (rev (takeWhile ?np x') @ c # B, dropWhile ?np x')" .
    have tw: "takeWhile ?np x = c # takeWhile ?np x'" and dw: "dropWhile ?np x = dropWhile ?np x'"
      using False Cons by simp_all
    have btw: "between (B, x) (rev (takeWhile ?np x') @ c # B, s') = c # takeWhile ?np x'" for s'
      using between_rev[of B x "c # takeWhile ?np x'" s'] by simp
    show ?thesis
    proof (cases "dropWhile ?np x'")
      case Nil
      have "spec_path_at x = None"
        unfolding spec_path_at_def dw Nil by simp
      moreover have "ms path_re ((B, x), g) = []"
        unfolding eq Nil by simp
      ultimately show ?thesis by simp
    next
      case (Cons e rest)
      then have "\<not> ?np e" using hd_dropWhile[of ?np x'] by auto
      then have e: "e = 41" by simp
      have "spec_path_at x = Some (c # takeWhile ?np x', rest)"
        unfolding spec_path_at_def dw tw Cons by simp
      moreover have "ms path_re ((B, x), g)
            = [((41 # rev (takeWhile ?np x') @ c # B, rest), g(3 \<mapsto> c # takeWhile ?np x'))]"
        unfolding eq Cons e by (simp add: btw)
      ultimately show ?thesis by simp
    qed
  qed
qed

lemma ms_target_re:
  "ms (target_re d) ((B, x), g) =
     (if take (length d) x = d
      then ms path_re ((rev d @ B, drop (length d) x), g(2 \<mapsto> d)) else [])
     @ ms path_re ((B, x), g)"
  by (simp add: target_re_def opt_def ms_lit between_rev)

lemma target_first:
  "(spec_target_at d x = None \<longrightarrow> ms (target_re d) ((B, x), g) = [])
   \<and> (\<forall>p rest. spec_target_at d x = Some (p, rest) \<longrightarrow>
        (\<exists>B' g' ys. ms (target_re d) ((B, x), g) = ((B', rest), g') # ys
                     \<and> g' 3 = Some p \<and> g' 1 = g 1))"
  by (auto simp: ms_target_re ms_path_re spec_target_at_def split: option.splits)

lemma close_first:
  "(spec_close_at d x = None \<longrightarrow> ms (close_re d) ((B, x), g) = [])
   \<and> (\<forall>p rest. spec_close_at d x = Some (p, rest) \<longrightarrow>
        (\<exists>B' g' ys. ms (close_re d) ((B, x), g) = ((B', rest), g') # ys
                     \<and> g' 3 = Some p \<and> g' 1 = g 1))"
proof -
  let ?o = "[93, 40] :: ustring"
  have cr: "close_re d = Seq (lit ?o) (target_re d)" by (simp add: close_re_def)
  have sc: "spec_close_at d x = (if take 2 x = ?o then spec_target_at d (drop 2 x) else None)"
    by (simp add: spec_close_at_def)
  show ?thesis
  proof (cases "take 2 x = ?o")
    case False
    then have "take (length ?o) x \<noteq> ?o" by (simp add: numeral_2_eq_2)
    then have "ms (close_re d) ((B, x), g) = []"
      unfolding cr by (rule ms_Seq_lit_fail)
    then show ?thesis using False sc by simp
  next
    case True
    then have x: "x = ?o @ drop 2 x"
      by (metis append_take_drop_id)
    have "ms (close_re d) ((B, ?o @ drop 2 x), g) = ms (target_re d) ((rev ?o @ B, drop 2 x), g)"
      unfolding cr by (rule ms_Seq_lit)
    then have "ms (close_re d) ((B, x), g) = ms (target_re d) ((rev ?o @ B, drop 2 x), g)"
      using x by simp
    then show ?thesis
      using True target_first[of d "drop 2 x" "rev ?o @ B" g] sc by simp
  qed
qed

lemma label_first:
  "(spec_label_scan d acc r = None \<longrightarrow>
      concat (map (\<lambda>cur'. ms (close_re d) (cur', g(1 \<mapsto> between (B, r0) cur')))
                  (star_ends False dot (acc @ B, r))) = [])
   \<and> (\<forall>l p rest. spec_label_scan d acc r = Some (l, p, rest) \<longrightarrow>
      (\<exists>B' g' ys.
         concat (map (\<lambda>cur'. ms (close_re d) (cur', g(1 \<mapsto> between (B, r0) cur')))
                     (star_ends False dot (acc @ B, r))) = ((B', rest), g') # ys
         \<and> g' 3 = Some p \<and> g' 1 = Some l))"
proof (induction r arbitrary: acc)
  case Nil
  have "ms (close_re d) ((acc @ B, []), g') = []" for g'
    using close_first[of d "[]" "acc @ B" g'] by (simp add: spec_close_at_def)
  then show ?case by simp
next
  case (Cons c r)
  let ?g = "g(1 \<mapsto> between (B, r0) (acc @ B, c # r))"
  let ?rest = "concat (map (\<lambda>cur'. ms (close_re d) (cur', g(1 \<mapsto> between (B, r0) cur')))
                  (star_ends False dot (c # acc @ B, r)))"
  have g1: "?g 1 = Some (rev acc)"
    using between_rev[of B r0 "rev acc" "c # r"] by simp
  have step: "concat (map (\<lambda>cur'. ms (close_re d) (cur', g(1 \<mapsto> between (B, r0) cur')))
                  (star_ends False dot (acc @ B, c # r)))
            = ms (close_re d) ((acc @ B, c # r), ?g) @ (if c = 10 then [] else ?rest)"
    by (simp add: dot_def)
  show ?case
  proof (cases "spec_close_at d (c # r)")
    case (Some pr)
    obtain p rest where pr: "pr = (p, rest)" by (cases pr)
    obtain B' g' ys where "ms (close_re d) ((acc @ B, c # r), ?g) = ((B', rest), g') # ys"
        "g' 3 = Some p" "g' 1 = ?g 1"
      using close_first[of d "c # r" "acc @ B" ?g] Some pr by blast
    then show ?thesis
      unfolding step using Some pr g1 by auto
  next
    case None
    have c0: "ms (close_re d) ((acc @ B, c # r), ?g) = []"
      using close_first[of d "c # r" "acc @ B" ?g] None by blast
    show ?thesis
    proof (cases "c = 10")
      case True
      then show ?thesis unfolding step using None c0 by simp
    next
      case False
      have sl: "spec_label_scan d acc (c # r) = spec_label_scan d (c # acc) r"
        using None False by simp
      have st: "concat (map (\<lambda>cur'. ms (close_re d) (cur', g(1 \<mapsto> between (B, r0) cur')))
                  (star_ends False dot (acc @ B, c # r))) = ?rest"
        unfolding step using c0 False by simp
      show ?thesis
        unfolding sl st by (rule Cons.IH[of "c # acc", unfolded append_Cons])
    qed
  qed
qed

lemma ms_img_link:
  "(spec_link_at d x = None \<longrightarrow> ms (img_insert_pattern d) ((b, x), Map.empty) = [])
   \<and> (\<forall>l p rest. spec_link_at d x = Some (l, p, rest) \<longrightarrow>
        (\<exists>B' g' ys. ms (img_insert_pattern d) ((b, x), Map.empty) = ((B', rest), g') # ys
                     \<and> g' 3 = Some p \<and> g' 1 = Some l))"
proof (cases x)
  case Nil
  then show ?thesis by (simp add: img_insert_pattern_close)
next
  case (Cons c r)
  show ?thesis
  proof (cases "c = 91")
    case False
    then show ?thesis using Cons by (simp add: img_insert_pattern_close)
  next
    case True
    have "ms (img_insert_pattern d) ((b, x), Map.empty)
            = concat (map (\<lambda>cur'. ms (close_re d) (cur', Map.empty(1 \<mapsto> between (91 # b, r) cur')))
                       (star_ends False dot ([] @ 91 # b, r)))"
      using True Cons by (simp add: img_insert_pattern_close comp_def)
    then show ?thesis
      using True Cons label_first[of d "[]" r Map.empty "91 # b" r] by simp
  qed
qed

lemma first_match_img_None:
  "spec_link_at d x = None \<Longrightarrow> first_match (img_insert_pattern d) False (b, x) = None"
  using ms_img_link[of d x b] by (simp add: first_match_None)

lemma first_match_img_Some:
  "spec_link_at d x = Some (l, p, rest) \<Longrightarrow>
   \<exists>B' g'. first_match (img_insert_pattern d) False (b, x) = Some ((B', rest), g')
            \<and> g' 3 = Some p \<and> g' 1 = Some l"
  using ms_img_link[of d x b] by (auto simp: first_match_def)

lemma sub_from_img:
  "sub_from (img_insert_pattern d) replace_img_path False (b, s) = spec_link_pass d s"
proof (induction d s arbitrary: b rule: spec_link_pass.induct)
  case (1 d)
  show ?case
    by (simp add: sub_from_Nil first_match_img_None)
next
  case (2 d c s)
  show ?case
  proof (cases "spec_link_at d (c # s)")
    case None
    then show ?thesis
      using 2(1)[OF None, of "c # b"]
      by (simp add: sub_from_skip first_match_img_None)
  next
    case (Some res)
    obtain l p rest where res: "res = (l, p, rest)" by (cases res)
    obtain B' g' where fm: "first_match (img_insert_pattern d) False (b, c # s) = Some ((B', rest), g')"
        and g: "g' 3 = Some p" "g' 1 = Some l"
      using first_match_img_Some[of d "c # s" l p rest b] Some res by blast
    have ne: "rest \<noteq> c # s" using spec_link_at_length[of d "c # s" l p rest] Some res by auto
    have "replace_img_path (mk_match (b, c # s) ((B', rest), g'))
            = asc ''['' @ l @ asc ''](''  @ p @ asc '')''"
      using g by (simp add: replace_img_path_def group_def mk_match_def)
    then show ?thesis
      using 2(2)[OF Some res[symmetric] refl, of B'] Some res ne
      by (simp add: sub_from_match[OF fm])
  qed
qed

lemma py_sub_img: "py_sub (img_insert_pattern d) replace_img_path s = spec_link_pass d s"
  by (simp add: py_sub_def sub_from_img)


subsection \<open>The tag pattern and the tag in words\<close>

definition quoted_re :: re where
  "quoted_re = seq [Grp 1 (plus_re True (\<lambda>c. \<not> quote c)), Cls quote]"

definition src_re :: "ustring \<Rightarrow> re" where
  "src_re d = Seq (lit (asc ''src='')) (Seq (Cls quote) (Seq (lit d) quoted_re))"

lemma html_img_tag_pattern_src:
  "html_img_tag_pattern U d = Seq (lit (asc ''<img'')) (Seq (plus_re True (py_isspace U)) (src_re d))"
  by (simp add: html_img_tag_pattern_def src_re_def quoted_re_def)

lemma ms_quoted_re:
  "(spec_quoted x = None \<longrightarrow> ms quoted_re ((B, x), g) = [])
   \<and> (\<forall>p rest. spec_quoted x = Some (p, rest) \<longrightarrow>
        (\<exists>B'. ms quoted_re ((B, x), g) = [((B', rest), g(1 \<mapsto> p))]))"
proof (cases x)
  case Nil
  then show ?thesis by (simp add: quoted_re_def plus_re_def spec_quoted_def)
next
  case (Cons c x')
  let ?nq = "\<lambda>c. \<not> quote c"
  let ?K = "\<lambda>cur'. ms (seq [Cls quote]) (cur', g(1 \<mapsto> between (B, x) cur'))"
  have K: "?K (b, e # s) = []" if "?nq e" for b e s
    using that by simp
  show ?thesis
  proof (cases "quote c")
    case True
    then show ?thesis using Cons by (simp add: quoted_re_def plus_re_def spec_quoted_def)
  next
    case False
    have "ms quoted_re ((B, x), g) = concat (map ?K (star_ends True ?nq (c # B, x')))"
      using False Cons by (simp add: quoted_re_def plus_re_def comp_def)
    also have "\<dots> = ?K (rev (takeWhile ?nq x') @ c # B, dropWhile ?nq x')"
      by (rule greedy_then) (rule K)
    finally have eq: "ms quoted_re ((B, x), g) = ?K (rev (takeWhile ?nq x') @ c # B, dropWhile ?nq x')" .
    have tw: "takeWhile ?nq x = c # takeWhile ?nq x'" and dw: "dropWhile ?nq x = dropWhile ?nq x'"
      using False Cons by simp_all
    have btw: "between (B, x) (rev (takeWhile ?nq x') @ c # B, s') = c # takeWhile ?nq x'" for s'
      using between_rev[of B x "c # takeWhile ?nq x'" s'] by simp
    show ?thesis
    proof (cases "dropWhile ?nq x'")
      case Nil
      have "spec_quoted x = None"
        unfolding spec_quoted_def dw Nil by simp
      moreover have "ms quoted_re ((B, x), g) = []"
        unfolding eq Nil by simp
      ultimately show ?thesis by simp
    next
      case (Cons e rest)
      then have e: "quote e" using hd_dropWhile[of ?nq x'] by auto
      have "spec_quoted x = Some (c # takeWhile ?nq x', rest)"
        unfolding spec_quoted_def dw tw Cons by simp
      moreover have "ms quoted_re ((B, x), g)
            = [((e # rev (takeWhile ?nq x') @ c # B, rest), g(1 \<mapsto> c # takeWhile ?nq x'))]"
        unfolding eq Cons using e by (simp add: btw)
      ultimately show ?thesis by simp
    qed
  qed
qed

lemma ms_src_re:
  "(spec_src_at d z = None \<longrightarrow> ms (src_re d) ((B, z), g) = [])
   \<and> (\<forall>p rest. spec_src_at d z = Some (p, rest) \<longrightarrow>
        (\<exists>B'. ms (src_re d) ((B, z), g) = [((B', rest), g(1 \<mapsto> p))]))"
proof (cases "take 4 z = asc ''src=''")
  case False
  then have "take (length (asc ''src='')) z \<noteq> asc ''src=''"
    by (simp add: numeral_eq_Suc)
  then have "ms (src_re d) ((B, z), g) = []"
    unfolding src_re_def by (rule ms_Seq_lit_fail)
  then show ?thesis using False by (simp add: spec_src_at_def)
next
  case True
  then have z: "z = asc ''src='' @ drop 4 z"
    by (metis append_take_drop_id)
  have "ms (src_re d) ((B, asc ''src='' @ drop 4 z), g)
          = ms (Seq (Cls quote) (Seq (lit d) quoted_re)) ((rev (asc ''src='') @ B, drop 4 z), g)"
    unfolding src_re_def by (rule ms_Seq_lit)
  then have eq: "ms (src_re d) ((B, z), g)
          = ms (Seq (Cls quote) (Seq (lit d) quoted_re)) ((rev (asc ''src='') @ B, drop 4 z), g)"
    using z by simp
  show ?thesis
  proof (cases "drop 4 z")
    case Nil
    then show ?thesis using True eq by (simp add: spec_src_at_def)
  next
    case (Cons q v)
    show ?thesis
    proof (cases "quote q \<and> take (length d) v = d")
      case False
      then show ?thesis using True eq Cons by (auto simp: spec_src_at_def ms_lit)
    next
      case T: True
      have "ms (src_re d) ((B, z), g)
              = ms quoted_re ((rev d @ q # rev (asc ''src='') @ B, drop (length d) v), g)"
        using eq Cons T by (simp add: ms_lit)
      moreover have "spec_src_at d z = spec_quoted (drop (length d) v)"
        using True Cons T by (simp add: spec_src_at_def)
      ultimately show ?thesis
        using ms_quoted_re[of "drop (length d) v" "rev d @ q # rev (asc ''src='') @ B" g] by simp
    qed
  qed
qed

lemma src_not_space: "py_isspace U c \<Longrightarrow> ms (src_re d) ((b, c # s), g) = []"
proof -
  assume "py_isspace U c"
  then have "c \<noteq> 115" by (auto simp: py_isspace_def split: if_splits)
  then have "take (length (asc ''src='')) (c # s) \<noteq> asc ''src=''" by simp
  then show ?thesis unfolding src_re_def by (rule ms_Seq_lit_fail)
qed

lemma ms_html_img:
  "(spec_img_tag_at U d x = None \<longrightarrow> ms (html_img_tag_pattern U d) ((b, x), g) = [])
   \<and> (\<forall>p rest. spec_img_tag_at U d x = Some (p, rest) \<longrightarrow>
        (\<exists>B'. ms (html_img_tag_pattern U d) ((b, x), g) = [((B', rest), g(1 \<mapsto> p))]))"
proof (cases "take 4 x = asc ''<img''")
  case False
  then have "take (length (asc ''<img'')) x \<noteq> asc ''<img''"
    by (simp add: numeral_eq_Suc)
  then have "ms (html_img_tag_pattern U d) ((b, x), g) = []"
    unfolding html_img_tag_pattern_src by (rule ms_Seq_lit_fail)
  then show ?thesis using False by (simp add: spec_img_tag_at_def)
next
  case True
  let ?B = "rev (asc ''<img'') @ b"
  let ?K = "\<lambda>cur'. ms (src_re d) (cur', g)"
  from True have x: "x = asc ''<img'' @ drop 4 x"
    by (metis append_take_drop_id)
  have "ms (html_img_tag_pattern U d) ((b, asc ''<img'' @ drop 4 x), g)
          = ms (Seq (plus_re True (py_isspace U)) (src_re d)) ((?B, drop 4 x), g)"
    unfolding html_img_tag_pattern_src by (rule ms_Seq_lit)
  then have eq: "ms (html_img_tag_pattern U d) ((b, x), g)
          = ms (Seq (plus_re True (py_isspace U)) (src_re d)) ((?B, drop 4 x), g)"
    using x by simp
  show ?thesis
  proof (cases "drop 4 x")
    case Nil
    then show ?thesis using True eq by (simp add: spec_img_tag_at_def plus_re_def)
  next
    case (Cons c y)
    show ?thesis
    proof (cases "py_isspace U c")
      case False
      then show ?thesis using True eq Cons by (simp add: spec_img_tag_at_def plus_re_def)
    next
      case sp: True
      have "ms (Seq (plus_re True (py_isspace U)) (src_re d)) ((?B, c # y), g)
              = concat (map ?K (star_ends True (py_isspace U) (c # ?B, y)))"
        using sp by (simp add: plus_re_def comp_def)
      also have "\<dots> = ?K (rev (takeWhile (py_isspace U) y) @ c # ?B, dropWhile (py_isspace U) y)"
        by (rule greedy_then) (rule src_not_space)
      finally have "ms (html_img_tag_pattern U d) ((b, x), g)
              = ms (src_re d) ((rev (takeWhile (py_isspace U) y) @ c # ?B, dropWhile (py_isspace U) y), g)"
        using eq Cons by simp
      moreover have "spec_img_tag_at U d x = spec_src_at d (dropWhile (py_isspace U) y)"
        using True Cons sp by (simp add: spec_img_tag_at_def)
      ultimately show ?thesis
        using ms_src_re[of d "dropWhile (py_isspace U) y"
                "rev (takeWhile (py_isspace U) y) @ c # ?B" g] by simp
    qed
  qed
qed

lemma first_match_html_None:
  "spec_img_tag_at U d x = None \<Longrightarrow> first_match (html_img_tag_pattern U d) False (b, x) = None"
  using ms_html_img[of U d x b Map.empty] by (simp add: first_match_None)

lemma first_match_html_Some:
  "spec_img_tag_at U d x = Some (p, rest) \<Longrightarrow>
   \<exists>B'. first_match (html_img_tag_pattern U d) False (b, x) = Some ((B', rest), Map.empty(1 \<mapsto> p))"
  using ms_html_img[of U d x b Map.empty] by (auto simp: first_match_def)

lemma sub_from_html:
  "sub_from (html_img_tag_pattern U d) replace_html_img_src False (b, s) = spec_html_pass U d s"
proof (induction U d s arbitrary: b rule: spec_html_pass.induct)
  case (1 U d)
  have "spec_img_tag_at U d [] = None" by (simp add: spec_img_tag_at_def)
  then show ?case
    by (simp add: sub_from_Nil first_match_html_None)
next
  case (2 U d c s)
  show ?case
  proof (cases "spec_img_tag_at U d (c # s)")
    case None
    then show ?thesis
      using 2(1)[OF None, of "c # b"]
      by (simp add: sub_from_skip first_match_html_None)
  next
    case (Some res)
    obtain p rest where res: "res = (p, rest)" by (cases res)
    obtain B' where fm: "first_match (html_img_tag_pattern U d) False (b, c # s)
                           = Some ((B', rest), Map.empty(1 \<mapsto> p))"
      using first_match_html_Some[of U d "c # s" p rest b] Some res by blast
    have ne: "rest \<noteq> c # s" using spec_img_tag_at_length[of U d "c # s" p rest] Some res by auto
    have "replace_html_img_src (mk_match (b, c # s) ((B', rest), Map.empty(1 \<mapsto> p)))
            = asc ''<img src='' @ [34] @ p @ [34]"
      by (simp add: replace_html_img_src_def group_def mk_match_def)
    then show ?thesis
      using 2(2)[OF Some res[symmetric], of B'] Some res ne
      by (simp add: sub_from_match[OF fm])
  qed
qed

lemma img_process_strip: "img_process_non_code U d = spec_strip_img U d"
  by (rule ext) (simp add: img_process_non_code_def spec_strip_img_def py_sub_def sub_from_html sub_from_img)

lemma remove_img_path_in_md_strip:
  "remove_img_path_in_md U s d = spec_rewrite (spec_strip_img U d) (spec_spans True s)"
  by (simp add: remove_img_path_in_md_def avoid_spec_rewrite img_process_strip)


subsection \<open>Code spans and the text before them\<close>

lemma leads_seq_Cons: "leads r st y1 \<Longrightarrow> leads (seq rs) y1 y2 \<Longrightarrow> leads (seq (r # rs)) st y2"
  by (simp add: leads_Seq)

lemma leads_seq_Nil: "leads (seq []) st st"
  by (simp add: leads_Eps)

lemma inline_match:
  assumes "body \<noteq> []" "96 \<notin> set body"
  shows "\<exists>g. first_match (code_block_pattern True) False ([], asc ''`'' @ body @ asc ''`'' @ s)
           = Some ((rev (asc ''`'' @ body @ asc ''`''), s), g)"
proof -
  let ?A1 = "seq [lit (asc ''~~~''), Star False any_char, lit (asc ''~~~'')]"
  let ?A2 = "seq [lit (asc ''```''), Star False any_char, lit (asc ''```'')]"
  let ?A3 = "seq [lit (asc ''`''), Star True (\<lambda>c. c \<noteq> 96), lit (asc ''`'')]"
  let ?st = "(([], 96 # body @ 96 # s), Map.empty :: groups)"
  let ?y = "((96 # rev body @ [96], s), Map.empty :: groups)"
  obtain c body' where body: "body = c # body'" "c \<noteq> 96"
    using assms by (cases body) auto
  have A1: "ms ?A1 ?st = []" by simp
  have A2: "ms ?A2 ?st = []" using body by simp
  have 1: "leads (lit (asc ''`'')) ?st (([96], body @ 96 # s), Map.empty)"
    using leads_lit[of "[96]" "[]" "body @ 96 # s" Map.empty] by simp
  have 2: "leads (Star True (\<lambda>c. c \<noteq> 96)) (([96], body @ 96 # s), Map.empty)
             ((rev body @ [96], 96 # s), Map.empty)"
    using assms(2) by (intro leads_Star_greedy) auto
  have 3: "leads (lit (asc ''`'')) ((rev body @ [96], 96 # s), Map.empty) ?y"
    using leads_lit[of "[96]" "rev body @ [96]" s Map.empty] by simp
  have "leads ?A3 ?st ?y"
    by (rule leads_seq_Cons[OF 1 leads_seq_Cons[OF 2 leads_seq_Cons[OF 3 leads_seq_Nil]]])
  then have "leads (Alt ?A1 (Alt ?A2 ?A3)) ?st ?y"
    by (intro leads_Alt2[OF A1] leads_Alt2[OF A2])
  from leads_Grp[OF this, of 1]
  obtain g where "leads (code_block_pattern True) ?st ((96 # rev body @ [96], s), g)"
    by (auto simp: code_block_pattern_def)
  then have "first_match (code_block_pattern True) False ([], 96 # body @ 96 # s)
           = Some ((96 # rev body @ [96], s), g)"
    by (intro leads_first_match) auto
  then show ?thesis by auto
qed

lemma spec_strip_img_Nil: "spec_strip_img U d [] = []"
  by (simp add: spec_strip_img_def)

lemma remove_img_path_in_md_plain:
  assumes "nocode a"
  shows "remove_img_path_in_md U a d = spec_strip_img U d a"
  using spec_spans_prefix[OF assms, of True "[]"]
  by (simp add: remove_img_path_in_md_strip spec_spans_Nil spec_rewrite_def prose_def spec_strip_img_Nil)

lemma remove_img_path_in_md_code:
  assumes "nocode a" "F \<noteq> []"
      and "\<exists>g. first_match (code_block_pattern True) False ([], F @ b) = Some ((rev F, b), g)"
  shows "remove_img_path_in_md U (a @ F @ b) d = spec_strip_img U d a @ F @ remove_img_path_in_md U b d"
proof -
  obtain g where fm: "first_match (code_block_pattern True) False ([], F @ b) = Some ((rev F, b), g)"
    using assms(3) by blast
  show ?thesis
    unfolding remove_img_path_in_md_def img_process_strip
    by (rule avoid_prefix_code[where p=a and F=F and s=b and flag=True and g=g
          and f="spec_strip_img U d", OF assms(1) fm assms(2) spec_strip_img_Nil])
qed

lemma remove_img_path_in_md_fence:
  assumes "f \<in> set fences" "first_close f body" "nocode a"
  shows "remove_img_path_in_md U (a @ f @ body @ f @ b) d
           = spec_strip_img U d a @ f @ body @ f @ remove_img_path_in_md U b d"
proof -
  have "f \<noteq> []" using assms(1) by (auto simp: fences_def)
  then have "f @ body @ f \<noteq> []" by simp
  from remove_img_path_in_md_code[OF assms(3) this, of b U d]
       fence_first_close[OF assms(1,2), where flag=True and s=b]
  show ?thesis by simp
qed

lemma remove_img_path_in_md_inline:
  assumes "body \<noteq> []" "96 \<notin> set body" "nocode a"
  shows "remove_img_path_in_md U (a @ asc ''`'' @ body @ asc ''`'' @ b) d
           = spec_strip_img U d a @ asc ''`'' @ body @ asc ''`'' @ remove_img_path_in_md U b d"
proof -
  have "asc ''`'' @ body @ asc ''`'' \<noteq> []" by simp
  from remove_img_path_in_md_code[OF assms(3) this, of b U d]
       inline_match[OF assms(1,2), of b]
  show ?thesis by simp
qed

subsection \<open>The shape of a link\<close>

lemma spec_path_at_path:
  assumes "p \<noteq> []" "41 \<notin> set p"
  shows "spec_path_at (p @ 41 # b) = Some (p, b)"
proof -
  have "takeWhile (\<lambda>c. c \<noteq> 41) (p @ 41 # b) = p"
    using assms(2) by (induction p) auto
  moreover have "dropWhile (\<lambda>c. c \<noteq> 41) (p @ 41 # b) = 41 # b"
    using assms(2) by (induction p) auto
  ultimately show ?thesis using assms(1) by (simp add: spec_path_at_def)
qed

lemma not_prefixed:
  assumes "take (length d) path \<noteq> d" "41 \<notin> set d"
  shows "take (length d) (path @ 41 # s) \<noteq> d"
proof
  assume eq: "take (length d) (path @ 41 # s) = d"
  show False
  proof (cases "length d \<le> length path")
    case True
    then show False using eq assms(1) by simp
  next
    case False
    then have "d = path @ take (length d - length path) (41 # s)" "length d - length path > 0"
      using eq by auto
    then have "41 \<in> set d"
      by (cases "length d - length path") (auto simp: take_Cons')
    then show False using assms(2) by simp
  qed
qed

lemma spec_label_scan_label:
  assumes "93 \<notin> set label" "10 \<notin> set label" "spec_target_at d t = Some (p, rest)"
  shows "spec_label_scan d acc (label @ 93 # 40 # t) = Some (rev acc @ label, p, rest)"
  using assms(1,2)
proof (induction label arbitrary: acc)
  case Nil
  show ?case using assms(3) by (simp add: spec_close_at_def)
next
  case (Cons c label)
  have "spec_close_at d (c # label @ 93 # 40 # t) = None"
    using Cons.prems by (simp add: spec_close_at_def)
  then show ?case using Cons.prems Cons.IH[of "c # acc"] by simp
qed

lemma spec_link_at_prefixed:
  assumes "93 \<notin> set label" "10 \<notin> set label" "rest \<noteq> []" "41 \<notin> set rest"
  shows "spec_link_at d (asc ''['' @ label @ asc ''](''  @ d @ rest @ asc '')'' @ b)
           = Some (label, rest, b)"
proof -
  have "spec_target_at d (d @ rest @ 41 # b) = Some (rest, b)"
    using spec_path_at_path[OF assms(3,4), of b] by (simp add: spec_target_at_def)
  from spec_label_scan_label[OF assms(1,2) this, of "[]"] show ?thesis by simp
qed

lemma spec_link_at_other:
  assumes "93 \<notin> set label" "10 \<notin> set label" "path \<noteq> []" "41 \<notin> set path"
      and "take (length d) path \<noteq> d" "literal_dir d"
  shows "spec_link_at d (asc ''['' @ label @ asc ''](''  @ path @ asc '')'' @ b)
           = Some (label, path, b)"
proof -
  have "41 \<notin> set d" using assms(6) by (auto simp: literal_dir_def)
  then have "take (length d) (path @ 41 # b) \<noteq> d"
    using not_prefixed[OF assms(5)] by simp
  then have "spec_target_at d (path @ 41 # b) = Some (path, b)"
    using spec_path_at_path[OF assms(3,4), of b] by (simp add: spec_target_at_def)
  from spec_label_scan_label[OF assms(1,2) this, of "[]"] show ?thesis by simp
qed

lemma spec_html_pass_plain: "60 \<notin> set t \<Longrightarrow> spec_html_pass U d t = t"
proof (induction t)
  case Nil
  show ?case by simp
next
  case (Cons c t)
  then have "spec_img_tag_at U d (c # t) = None"
    by (simp add: spec_img_tag_at_def)
  then show ?case using Cons by simp
qed


lemma spec_link_pass_prefix: "91 \<notin> set a \<Longrightarrow> spec_link_pass d (a @ x) = a @ spec_link_pass d x"
  by (induction a) simp_all

lemma spec_link_pass_prefixed:
  assumes "91 \<notin> set a" "93 \<notin> set label" "10 \<notin> set label" "rest \<noteq> []" "41 \<notin> set rest"
  shows "spec_link_pass d (a @ asc ''['' @ label @ asc ''](''  @ d @ rest @ asc '')'' @ x)
           = a @ asc ''['' @ label @ asc ''](''  @ rest @ asc '')'' @ spec_link_pass d x"
proof -
  have "spec_link_at d (91 # label @ 93 # 40 # d @ rest @ 41 # x) = Some (label, rest, x)"
    using spec_link_at_prefixed[OF assms(2-5), of d x] by simp
  then have "spec_link_pass d (91 # label @ 93 # 40 # d @ rest @ 41 # x)
           = 91 # label @ 93 # 40 # rest @ 41 # spec_link_pass d x"
    by (simp del: spec_link_at.simps)
  then show ?thesis
    using spec_link_pass_prefix[OF assms(1)] by simp
qed

lemma spec_link_pass_other:
  assumes "91 \<notin> set a" "93 \<notin> set label" "10 \<notin> set label" "path \<noteq> []" "41 \<notin> set path"
      and "take (length d) path \<noteq> d" "literal_dir d"
  shows "spec_link_pass d (a @ asc ''['' @ label @ asc ''](''  @ path @ asc '')'' @ x)
           = a @ asc ''['' @ label @ asc ''](''  @ path @ asc '')'' @ spec_link_pass d x"
proof -
  have "spec_link_at d (91 # label @ 93 # 40 # path @ 41 # x) = Some (label, path, x)"
    using spec_link_at_other[OF assms(2-7), of x] by simp
  then have "spec_link_pass d (91 # label @ 93 # 40 # path @ 41 # x)
           = 91 # label @ 93 # 40 # path @ 41 # spec_link_pass d x"
    by (simp del: spec_link_at.simps)
  then show ?thesis
    using spec_link_pass_prefix[OF assms(1)] by simp
qed

lemmas img_simps = remove_img_path_in_md_def img_process_non_code_def img_insert_pattern_def
  html_img_tag_pattern_def replace_img_path_def replace_html_img_src_def group_def quote_def opt_def

lemmas img_spec_simps = spec_strip_img_def spec_link_pass.simps spec_link_at.simps
  spec_label_scan.simps spec_close_at_def spec_target_at_def spec_path_at_def spec_html_pass.simps
  spec_img_tag_at_def spec_src_at_def spec_quoted_def quote_def py_isspace_def nocode_def
  literal_dir_def fences_def

text \<open>
  Claim C6, as amended. For an image directory \<open>d\<close> without regex metacharacters, the code
  spans of the document (the matches of \<open>~~~\<dots>~~~\<close>, of three backquotes and of one
  backquote) are copied unchanged, and each stretch of text between them is rewritten by
  \<open>spec_link_pass\<close> and then by \<open>spec_html_pass\<close>. The first reads the stretch from left to
  right and writes every link it meets as label and path, going on after the link: a link is
  \<open>[\<close>, the shortest label on one line that is followed by \<open>](\<close> and a target, and the
  target, which is \<open>d\<close> and a non-empty path without \<open>)\<close> closed by \<open>)\<close> or, when the text has
  no such form, such a path alone. So after text without \<open>[\<close>, a link whose label has
  no \<open>]\<close> and no line end and whose path begins with \<open>d\<close> loses \<open>d\<close>, and such a link whose
  path does not begin with \<open>d\<close> stays as it is. The second pass writes every \<open><img\<close>,
  whitespace, \<open>src=\<close>, quote, \<open>d\<close>, name, quote as \<open><img src="name"\<close> and keeps a text without
  \<open><\<close>. A document without backquote and tilde is one stretch; a fence whose closing
  string occurs first at its end and a non-empty inline code without backquote are one code
  span. (Not every link that carries the prefix is rewritten: see the counterexample below.)
\<close>

theorem remove_img_path_in_md_links:
  "(literal_dir d \<longrightarrow>
      remove_img_path_in_md U s d = spec_rewrite (spec_strip_img U d) (spec_spans True s))
   \<and> (literal_dir d \<and> nocode a \<longrightarrow> remove_img_path_in_md U a d = spec_strip_img U d a)
   \<and> (literal_dir d \<and> nocode a \<and> f \<in> set fences \<and> first_close f body \<longrightarrow>
      remove_img_path_in_md U (a @ f @ body @ f @ b) d
        = spec_strip_img U d a @ f @ body @ f @ remove_img_path_in_md U b d)
   \<and> (literal_dir d \<and> nocode a \<and> code \<noteq> [] \<and> 96 \<notin> set code \<longrightarrow>
      remove_img_path_in_md U (a @ asc ''`'' @ code @ asc ''`'' @ b) d
        = spec_strip_img U d a @ asc ''`'' @ code @ asc ''`'' @ remove_img_path_in_md U b d)
   \<and> spec_strip_img U d t = spec_html_pass U d (spec_link_pass d t)
   \<and> (91 \<notin> set p \<and> 93 \<notin> set label \<and> 10 \<notin> set label \<and> rest \<noteq> [] \<and> 41 \<notin> set rest \<longrightarrow>
      spec_link_pass d (p @ asc ''['' @ label @ asc ''](''  @ d @ rest @ asc '')'' @ x)
        = p @ asc ''['' @ label @ asc ''](''  @ rest @ asc '')'' @ spec_link_pass d x)
   \<and> (literal_dir d \<and> 91 \<notin> set p \<and> 93 \<notin> set label \<and> 10 \<notin> set label \<and> path \<noteq> []
        \<and> 41 \<notin> set path \<and> take (length d) path \<noteq> d \<longrightarrow>
      spec_link_pass d (p @ asc ''['' @ label @ asc ''](''  @ path @ asc '')'' @ x)
        = p @ asc ''['' @ label @ asc ''](''  @ path @ asc '')'' @ spec_link_pass d x)
   \<and> (91 \<notin> set p \<longrightarrow> spec_link_pass d p = p)
   \<and> (60 \<notin> set t \<longrightarrow> spec_html_pass U d t = t)
   \<and> remove_img_path_in_md U (asc ''[cat](img/cat.png)'') (asc ''img/'') = asc ''[cat](cat.png)''
   \<and> remove_img_path_in_md U (asc ''[cat](other/cat.png)'') (asc ''img/'')
        = asc ''[cat](other/cat.png)''"
proof (intro conjI impI)
  show "remove_img_path_in_md U s d = spec_rewrite (spec_strip_img U d) (spec_spans True s)"
    by (rule remove_img_path_in_md_strip)
next
  assume "literal_dir d \<and> nocode a"
  then show "remove_img_path_in_md U a d = spec_strip_img U d a"
    by (intro remove_img_path_in_md_plain) simp
next
  assume "literal_dir d \<and> nocode a \<and> f \<in> set fences \<and> first_close f body"
  then show "remove_img_path_in_md U (a @ f @ body @ f @ b) d
        = spec_strip_img U d a @ f @ body @ f @ remove_img_path_in_md U b d"
    by (intro remove_img_path_in_md_fence) simp_all
next
  assume "literal_dir d \<and> nocode a \<and> code \<noteq> [] \<and> 96 \<notin> set code"
  then show "remove_img_path_in_md U (a @ asc ''`'' @ code @ asc ''`'' @ b) d
        = spec_strip_img U d a @ asc ''`'' @ code @ asc ''`'' @ remove_img_path_in_md U b d"
    by (intro remove_img_path_in_md_inline) simp_all
next
  show "spec_strip_img U d t = spec_html_pass U d (spec_link_pass d t)"
    by (simp add: spec_strip_img_def)
next
  assume "91 \<notin> set p \<and> 93 \<notin> set label \<and> 10 \<notin> set label \<and> rest \<noteq> [] \<and> 41 \<notin> set rest"
  then show "spec_link_pass d (p @ asc ''['' @ label @ asc ''](''  @ d @ rest @ asc '')'' @ x)
        = p @ asc ''['' @ label @ asc ''](''  @ rest @ asc '')'' @ spec_link_pass d x"
    by (intro spec_link_pass_prefixed) simp_all
next
  assume "literal_dir d \<and> 91 \<notin> set p \<and> 93 \<notin> set label \<and> 10 \<notin> set label \<and> path \<noteq> []
        \<and> 41 \<notin> set path \<and> take (length d) path \<noteq> d"
  then show "spec_link_pass d (p @ asc ''['' @ label @ asc ''](''  @ path @ asc '')'' @ x)
        = p @ asc ''['' @ label @ asc ''](''  @ path @ asc '')'' @ spec_link_pass d x"
    by (intro spec_link_pass_other) simp_all
next
  assume "91 \<notin> set p"
  then show "spec_link_pass d p = p"
    using spec_link_pass_prefix[of p d "[]"] by simp
next
  assume "60 \<notin> set t"
  then show "spec_html_pass U d t = t" by (rule spec_html_pass_plain)
next
  show "remove_img_path_in_md U (asc ''[cat](img/cat.png)'') (asc ''img/'') = asc ''[cat](cat.png)''"
    by (simp add: remove_img_path_in_md_plain img_spec_simps)
next
  show "remove_img_path_in_md U (asc ''[cat](other/cat.png)'') (asc ''img/'')
        = asc ''[cat](other/cat.png)''"
    by (simp add: remove_img_path_in_md_plain img_spec_simps)
qed

text \<open>
  Counterexample to claim C6 as stated. In an image that is the label of a link only the
  inner image loses the prefix, because the label ends at the first \<open>](\<close>; and a link whose
  label spans a line end is not rewritten, because the label is matched on one line.
\<close>

theorem remove_img_path_in_md_nested:
  "remove_img_path_in_md ucd_excerpt (asc ''[![alt](img/a.png)](img/b.png)'') (asc ''img/'')
     = asc ''[![alt](a.png)](img/b.png)''
   \<and> remove_img_path_in_md ucd_excerpt (asc ''[my'' @ [10] @ asc ''cat](img/cat.png)'') (asc ''img/'')
     = asc ''[my'' @ [10] @ asc ''cat](img/cat.png)''"
  by (simp add: img_simps rewriter_simps)

text \<open>
  The amended claim C6 at concrete documents: links and a tag in plain text, links inside
  inline code and inside a fence, and the single steps of the two passes.
\<close>

theorem remove_img_path_in_md_links_witness:
  "remove_img_path_in_md ucd_excerpt
     (asc ''see [cat](img/cat.png) and [dog](other/d.png) <img  src='' @ [39] @ asc ''img/e.png''
        @ [39] @ asc ''>.'') (asc ''img/'')
     = asc ''see [cat](cat.png) and [dog](other/d.png) <img src='' @ [34] @ asc ''e.png''
        @ [34] @ asc ''>.''
   \<and> remove_img_path_in_md ucd_excerpt
     (asc ''[a](img/b.png) `[x](img/y)` ~~~[z](img/w)~~~ [c](img/d.png)'') (asc ''img/'')
     = asc ''[a](b.png) `[x](img/y)` ~~~[z](img/w)~~~ [c](d.png)''
   \<and> spec_link_pass (asc ''img/'') (asc ''see [cat](img/cat.png)!'') = asc ''see [cat](cat.png)!''
   \<and> spec_link_pass (asc ''img/'') (asc ''see [dog](other/d.png)!'') = asc ''see [dog](other/d.png)!''
   \<and> spec_html_pass ucd_excerpt (asc ''img/'') (asc ''[cat](cat.png)'') = asc ''[cat](cat.png)''"
proof -
  let ?U = ucd_excerpt
  let ?d = "asc ''img/''"
  note T = remove_img_path_in_md_links[where U="?U" and d="?d" and s="[]" and t="asc ''[cat](cat.png)''"
      and label="asc ''cat''" and rest="asc ''cat.png''" and path="asc ''other/d.png''"
      and x="asc ''!''" and p="asc ''see ''"]
  have 1: "remove_img_path_in_md ?U
     (asc ''see [cat](img/cat.png) and [dog](other/d.png) <img  src='' @ [39] @ asc ''img/e.png''
        @ [39] @ asc ''>.'') ?d
     = asc ''see [cat](cat.png) and [dog](other/d.png) <img src='' @ [34] @ asc ''e.png''
        @ [34] @ asc ''>.''"
    using T[where a="asc ''see [cat](img/cat.png) and [dog](other/d.png) <img  src='' @ [39]
        @ asc ''img/e.png'' @ [39] @ asc ''>.''" and f="asc ''~~~''" and body="[]" and code="asc ''c''"
        and b="[]"]
    by (simp add: img_spec_simps)
  have tail: "remove_img_path_in_md ?U (asc '' [c](img/d.png)'') ?d = asc '' [c](d.png)''"
    using T[where a="asc '' [c](img/d.png)''" and f="asc ''~~~''" and body="[]" and code="asc ''c''"
        and b="[]"]
    by (simp add: img_spec_simps)
  have fence: "remove_img_path_in_md ?U (asc '' ~~~[z](img/w)~~~ [c](img/d.png)'') ?d
                 = asc '' ~~~[z](img/w)~~~ [c](d.png)''"
    using T[where a="asc '' ''" and f="asc ''~~~''" and body="asc ''[z](img/w)''" and code="asc ''c''"
        and b="asc '' [c](img/d.png)''"] tail
    by (simp add: img_spec_simps)
  have 2: "remove_img_path_in_md ?U
     (asc ''[a](img/b.png) `[x](img/y)` ~~~[z](img/w)~~~ [c](img/d.png)'') ?d
     = asc ''[a](b.png) `[x](img/y)` ~~~[z](img/w)~~~ [c](d.png)''"
    using T[where a="asc ''[a](img/b.png) ''" and f="asc ''~~~''" and body="[]"
        and code="asc ''[x](img/y)''" and b="asc '' ~~~[z](img/w)~~~ [c](img/d.png)''"] fence
    by (simp add: img_spec_simps)
  note T0 = T[where a="[]" and f="asc ''~~~''" and body="[]" and code="asc ''c''" and b="[]"]
  have 3: "spec_link_pass ?d (asc ''see [cat](img/cat.png)!'') = asc ''see [cat](cat.png)!''"
    using T0 by (simp add: img_spec_simps)
  have 4: "spec_link_pass ?d (asc ''see [dog](other/d.png)!'') = asc ''see [dog](other/d.png)!''"
    using T0 by (simp add: img_spec_simps)
  have 5: "spec_html_pass ?U ?d (asc ''[cat](cat.png)'') = asc ''[cat](cat.png)''"
    using T0 by simp
  show ?thesis
    using 1 2 3 4 5 by (intro conjI)
qed


subsection \<open>The link-to-card converter\<close>

text \<open>
  \<open>pattern.sub(replace_with_card, content)\<close> with a replacement function that looks a key
  up in a dictionary: the lookup can raise, so the substitution returns an error or a text.
\<close>

datatype lookup_error = KeyError

function sub_from_e :: "re \<Rightarrow> (py_match \<Rightarrow> lookup_error + ustring) \<Rightarrow> bool \<Rightarrow> cursor
                         \<Rightarrow> lookup_error + ustring" where
  "sub_from_e r repl must cur =
     (case first_match r must cur of
        Some res \<Rightarrow>
          (case repl (mk_match cur res) of
             Inl e \<Rightarrow> Inl e
           | Inr out \<Rightarrow>
               (case sub_from_e r repl (snd (fst res) = snd cur) (fst res) of
                  Inl e \<Rightarrow> Inl e
                | Inr rest \<Rightarrow> Inr (out @ rest)))
      | None \<Rightarrow>
          (case cur of
             (b, []) \<Rightarrow> Inr []
           | (b, c # s) \<Rightarrow>
               (case sub_from_e r repl False (c # b, s) of
                  Inl e \<Rightarrow> Inl e
                | Inr rest \<Rightarrow> Inr (c # rest))))"
  by pat_completeness auto
termination
proof (relation "measure (\<lambda>(r, repl, must, cur). 2 * length (snd cur) + (if must then 0 else 1))", goal_cases)
  case 1
  show ?case by simp
next
  case (2 r repl must cur b s c s')
  then show ?case by auto
next
  case (3 r repl must cur res out)
  then show ?case using first_match_measure[of r must cur res] by simp
qed

declare sub_from_e.simps [simp del]

definition py_sub_e :: "re \<Rightarrow> (py_match \<Rightarrow> lookup_error + ustring) \<Rightarrow> ustring \<Rightarrow> lookup_error + ustring" where
  "py_sub_e r repl s = sub_from_e r repl False ([], s)"

definition zhihu_icon :: ustring where
  "zhihu_icon = asc ''https://pic1.zhimg.com/v2-4cd83ae3d6ca76dabecf001244a62310.jpg?source=57bbeac9''"

definition github_icon :: ustring where
  "github_icon = asc ''https://github.githubassets.com/assets/apple-touch-icon-144x144-b882e354c005.png''"

text \<open>
  The dictionary, in the order of the source; the first key is the two characters U+77E5
  U+4E4E. \<open>map(str.lower, icon_url_mapping.keys())\<close> is a constant of the program: the keys
  are lower-case words and two ideographs, which have no case, so it is the list of the keys.
\<close>

definition icon_url_mapping :: "(ustring \<times> ustring) list" where
  "icon_url_mapping =
     [([30693, 20046], zhihu_icon), (asc ''zhihu'', zhihu_icon), (asc ''github'', github_icon)]"

definition lower_keys :: "ustring list" where
  "lower_keys = map fst icon_url_mapping"

definition card_pattern :: "ucd \<Rightarrow> re" where
  "card_pattern U =
     seq [lit (asc ''<!--''), Cls (py_isspace U), Grp 1 (plus_re False (\<lambda>c. c \<noteq> 62)),
          Cls (py_isspace U), lit (asc ''-->''), lit [10], lit (asc ''[''),
          Grp 2 (Star False any_char), lit (asc ''](''), Grp 3 (Star False any_char),
          lit (asc '')'')]"

definition card :: "ustring \<Rightarrow> ustring \<Rightarrow> ustring \<Rightarrow> ustring" where
  "card title url icon_url =
     asc ''{% externalLinkCard '' @ [34] @ title @ [34] @ asc '' '' @ [34] @ url @ [34]
       @ asc '' '' @ [34] @ icon_url @ [34] @ asc '' %}''"

definition replace_with_card :: "ucd \<Rightarrow> py_match \<Rightarrow> lookup_error + ustring" where
  "replace_with_card U m =
     (let icon_url = py_strip U (group m 1);
          title = py_strip U (group m 2);
          url = py_strip U (group m 3)
      in case (if py_lower U icon_url \<in> set lower_keys
               then (case map_of icon_url_mapping (py_lower U icon_url) of
                       Some v \<Rightarrow> Inr v
                     | None \<Rightarrow> Inl KeyError)
               else Inr icon_url) of
           Inl e \<Rightarrow> Inl e
         | Inr icon \<Rightarrow> Inr (card title url icon))"

definition replace_url_to_card :: "ucd \<Rightarrow> ustring \<Rightarrow> lookup_error + ustring" where
  "replace_url_to_card U content = py_sub_e (card_pattern U) (replace_with_card U) content"

text \<open>
  The same transform in words, without a pattern. An annotated link is \<open><!--\<close>, one
  whitespace character, an icon, one whitespace character, \<open>-->\<close>, a line end, \<open>[\<close>, a
  title, \<open>](\<close>, a url and \<open>)\<close>. \<open>spec_url_scan\<close>: the url is the text up to the next \<open>)\<close>.
  \<open>spec_title_scan\<close>: the title is the shortest text that is followed by \<open>](\<close> and a url.
  \<open>spec_icon_scan\<close>: the icon is the shortest non-empty text without \<open>>\<close> that is followed
  by the rest of an annotated link. Title and url may span lines. \<open>spec_card_pass\<close> reads
  the text from left to right and writes every annotated link it meets as a card, going on
  after it; icon, title and url are trimmed, and an icon whose lower-case form is a key of the
  dictionary is replaced by the value of that key.
\<close>

fun spec_url_scan :: "ustring \<Rightarrow> ustring \<Rightarrow> (ustring \<times> ustring) option" where
  "spec_url_scan acc [] = None"
| "spec_url_scan acc (c # r) = (if c = 41 then Some (rev acc, r) else spec_url_scan (c # acc) r)"

definition spec_link_close :: "ustring \<Rightarrow> (ustring \<times> ustring) option" where
  "spec_link_close x = (if take 2 x = asc ''](''  then spec_url_scan [] (drop 2 x) else None)"

fun spec_title_scan :: "ustring \<Rightarrow> ustring \<Rightarrow> (ustring \<times> ustring \<times> ustring) option" where
  "spec_title_scan acc [] = None"
| "spec_title_scan acc (c # r) =
     (case spec_link_close (c # r) of
        Some (url, rest) \<Rightarrow> Some (rev acc, url, rest)
      | None \<Rightarrow> spec_title_scan (c # acc) r)"

definition spec_comment_close :: "ucd \<Rightarrow> ustring \<Rightarrow> (ustring \<times> ustring \<times> ustring) option" where
  "spec_comment_close U x =
     (case x of
        [] \<Rightarrow> None
      | w # y \<Rightarrow> if py_isspace U w \<and> take 5 y = asc ''-->'' @ [10] @ asc ''[''
                 then spec_title_scan [] (drop 5 y) else None)"

fun spec_icon_scan :: "ucd \<Rightarrow> ustring \<Rightarrow> ustring
                         \<Rightarrow> (ustring \<times> ustring \<times> ustring \<times> ustring) option" where
  "spec_icon_scan U acc [] = None"
| "spec_icon_scan U acc (c # r) =
     (case spec_comment_close U (c # r) of
        Some (title, url, rest) \<Rightarrow> Some (rev acc, title, url, rest)
      | None \<Rightarrow> if c = 62 then None else spec_icon_scan U (c # acc) r)"

definition spec_card_at :: "ucd \<Rightarrow> ustring \<Rightarrow> (ustring \<times> ustring \<times> ustring \<times> ustring) option" where
  "spec_card_at U x =
     (if take 4 x = asc ''<!--'' then
        (case drop 4 x of
           w # e # r \<Rightarrow> if py_isspace U w \<and> e \<noteq> 62 then spec_icon_scan U [e] r else None
         | _ \<Rightarrow> None)
      else None)"

definition spec_resolve :: "ucd \<Rightarrow> ustring \<Rightarrow> ustring" where
  "spec_resolve U icon =
     (case map_of icon_url_mapping (py_lower U icon) of Some v \<Rightarrow> v | None \<Rightarrow> icon)"

lemma spec_url_scan_length: "spec_url_scan acc x = Some (u, rest) \<Longrightarrow> length rest < length x"
  by (induction x arbitrary: acc) (auto split: if_splits, fastforce)

lemma spec_link_close_length: "spec_link_close x = Some (u, rest) \<Longrightarrow> length rest < length x"
proof -
  assume "spec_link_close x = Some (u, rest)"
  then have "spec_url_scan [] (drop 2 x) = Some (u, rest)"
    by (auto simp: spec_link_close_def split: if_splits)
  then have "length rest < length (drop 2 x)" by (rule spec_url_scan_length)
  then show ?thesis by simp
qed

lemma spec_title_scan_length:
  "spec_title_scan acc x = Some (t, u, rest) \<Longrightarrow> length rest < length x"
proof (induction x arbitrary: acc)
  case Nil
  then show ?case by simp
next
  case (Cons c r)
  show ?case
  proof (cases "spec_link_close (c # r)")
    case None
    then show ?thesis using Cons.prems Cons.IH[of "c # acc"] by auto
  next
    case (Some pr)
    then show ?thesis using Cons.prems spec_link_close_length[of "c # r"] by (cases pr) auto
  qed
qed

lemma spec_comment_close_length:
  "spec_comment_close U x = Some (t, u, rest) \<Longrightarrow> length rest < length x"
proof -
  assume a: "spec_comment_close U x = Some (t, u, rest)"
  then obtain w y where x: "x = w # y" and ts: "spec_title_scan [] (drop 5 y) = Some (t, u, rest)"
    by (auto simp: spec_comment_close_def split: list.splits if_splits)
  have "length rest < length (drop 5 y)" using ts by (rule spec_title_scan_length)
  then show ?thesis using x by simp
qed

lemma spec_icon_scan_length:
  "spec_icon_scan U acc x = Some (i, t, u, rest) \<Longrightarrow> length rest < length x"
proof (induction x arbitrary: acc)
  case Nil
  then show ?case by simp
next
  case (Cons c r)
  show ?case
  proof (cases "spec_comment_close U (c # r)")
    case None
    then show ?thesis using Cons.prems Cons.IH[of "c # acc"] by (auto split: if_splits)
  next
    case (Some pr)
    then show ?thesis
      using Cons.prems spec_comment_close_length[of U "c # r"] by (cases pr) auto
  qed
qed

lemma spec_card_at_length: "spec_card_at U x = Some (i, t, u, rest) \<Longrightarrow> length rest < length x"
proof -
  assume a: "spec_card_at U x = Some (i, t, u, rest)"
  then obtain w e r where d: "drop 4 x = w # e # r" and s: "spec_icon_scan U [e] r = Some (i, t, u, rest)"
    by (auto simp: spec_card_at_def split: if_splits list.splits)
  have "length rest < length r" using s by (rule spec_icon_scan_length)
  also have "\<dots> < length (drop 4 x)" using d by simp
  also have "\<dots> \<le> length x" by simp
  finally show ?thesis .
qed

function spec_card_pass :: "ucd \<Rightarrow> ustring \<Rightarrow> ustring" where
  "spec_card_pass U [] = []"
| "spec_card_pass U (c # s) =
     (case spec_card_at U (c # s) of
        Some (icon, title, url, rest) \<Rightarrow>
          card (py_strip U title) (py_strip U url) (spec_resolve U (py_strip U icon))
            @ spec_card_pass U rest
      | None \<Rightarrow> c # spec_card_pass U s)"
  by pat_completeness auto

termination
proof (relation "measure (\<lambda>(U, s). length s)", goal_cases)
  case 1
  show ?case by simp
next
  case (2 U c s)
  show ?case by simp
next
  case (3 U c s x2 icon y title z url rest)
  then show ?case using spec_card_at_length[of U "c # s" icon title url rest] by simp
qed


subsection \<open>The card pattern and the annotated link in words\<close>

lemma sub_from_e_Nil:
  "first_match r must (b, []) = None \<Longrightarrow> sub_from_e r repl must (b, []) = Inr []"
  by (subst sub_from_e.simps) simp

lemma sub_from_e_skip:
  "first_match r must (b, c # s) = None \<Longrightarrow>
   sub_from_e r repl must (b, c # s)
     = (case sub_from_e r repl False (c # b, s) of Inl e \<Rightarrow> Inl e | Inr rest \<Rightarrow> Inr (c # rest))"
  by (subst sub_from_e.simps) simp

lemma sub_from_e_match:
  "first_match r must cur = Some res \<Longrightarrow> repl (mk_match cur res) = Inr out \<Longrightarrow>
   sub_from_e r repl must cur
     = (case sub_from_e r repl (snd (fst res) = snd cur) (fst res) of
          Inl e \<Rightarrow> Inl e | Inr rest \<Rightarrow> Inr (out @ rest))"
  by (subst sub_from_e.simps) simp

lemma ms_Seq_lit_if:
  "ms (Seq (lit w) r) ((B, x), g)
     = (if take (length w) x = w then ms r ((rev w @ B, drop (length w) x), g) else [])"
  by (simp add: ms_lit)

definition url_re :: re where
  "url_re = seq [Grp 3 (Star False any_char), lit (asc '')'')]"

definition link_close_re :: re where
  "link_close_re = Seq (lit (asc ''](''))  url_re"

definition title_re :: re where
  "title_re = Seq (Grp 2 (Star False any_char)) link_close_re"

definition comment_close_re :: "ucd \<Rightarrow> re" where
  "comment_close_re U =
     Seq (Cls (py_isspace U)) (Seq (lit (asc ''-->'')) (Seq (lit [10]) (Seq (lit (asc ''['')) title_re)))"

lemma card_pattern_parts:
  "card_pattern U = Seq (lit (asc ''<!--'')) (Seq (Cls (py_isspace U))
                      (Seq (Grp 1 (plus_re False (\<lambda>c. c \<noteq> 62))) (comment_close_re U)))"
  by (simp add: card_pattern_def comment_close_re_def title_re_def link_close_re_def url_re_def)

lemma url_first:
  "(spec_url_scan acc x = None \<longrightarrow>
      concat (map (\<lambda>cur'. ms (seq [lit (asc '')'')]) (cur', g(3 \<mapsto> between (B, x0) cur')))
                  (star_ends False any_char (acc @ B, x))) = [])
   \<and> (\<forall>u rest. spec_url_scan acc x = Some (u, rest) \<longrightarrow>
      (\<exists>B' ys.
         concat (map (\<lambda>cur'. ms (seq [lit (asc '')'')]) (cur', g(3 \<mapsto> between (B, x0) cur')))
                     (star_ends False any_char (acc @ B, x))) = ((B', rest), g(3 \<mapsto> u)) # ys))"
proof (induction x arbitrary: acc)
  case Nil
  show ?case by simp
next
  case (Cons c r)
  have b: "between (B, x0) (acc @ B, s') = rev acc" for s'
    using between_rev[of B x0 "rev acc" s'] by simp
  let ?K = "\<lambda>cur'. ms (seq [lit (asc '')'')]) (cur', g(3 \<mapsto> between (B, x0) cur'))"
  show ?case
  proof (cases "c = 41")
    case True
    have K: "?K (acc @ B, 41 # r) = [((41 # acc @ B, r), g(3 \<mapsto> rev acc))]"
      unfolding b by simp
    have "concat (map ?K (star_ends False any_char (acc @ B, c # r)))
            = ?K (acc @ B, 41 # r) @ concat (map ?K (star_ends False any_char (41 # acc @ B, r)))"
      using True by (simp add: any_char_def)
    then have F1: "concat (map ?K (star_ends False any_char (acc @ B, c # r)))
            = ((41 # acc @ B, r), g(3 \<mapsto> rev acc))
                # concat (map ?K (star_ends False any_char (41 # acc @ B, r)))"
      unfolding K by simp
    have F2: "spec_url_scan acc (c # r) = Some (rev acc, r)" using True by simp
    show ?thesis
      unfolding F1 F2
    proof (intro conjI impI allI)
      fix u rest assume "Some (rev acc, r) = Some (u, rest)"
      then have "u = rev acc" "rest = r" by simp_all
      then show "\<exists>B' ys. ((41 # acc @ B, r), g(3 \<mapsto> rev acc))
                # concat (map ?K (star_ends False any_char (41 # acc @ B, r)))
              = ((B', rest), g(3 \<mapsto> u)) # ys"
        by blast
    qed simp
  next
    case False
    have sl: "spec_url_scan acc (c # r) = spec_url_scan (c # acc) r"
      using False by simp
    have st: "concat (map (\<lambda>cur'. ms (seq [lit (asc '')'')]) (cur', g(3 \<mapsto> between (B, x0) cur')))
                  (star_ends False any_char (acc @ B, c # r)))
            = concat (map (\<lambda>cur'. ms (seq [lit (asc '')'')]) (cur', g(3 \<mapsto> between (B, x0) cur')))
                  (star_ends False any_char (c # acc @ B, r)))"
      using False by (simp add: any_char_def)
    show ?thesis
      unfolding sl st by (rule Cons.IH[of "c # acc", unfolded append_Cons])
  qed
qed

lemma ms_url_re:
  "(spec_url_scan [] x = None \<longrightarrow> ms url_re ((B, x), g) = [])
   \<and> (\<forall>u rest. spec_url_scan [] x = Some (u, rest) \<longrightarrow>
        (\<exists>B' ys. ms url_re ((B, x), g) = ((B', rest), g(3 \<mapsto> u)) # ys))"
proof -
  have "ms url_re ((B, x), g)
          = concat (map (\<lambda>cur'. ms (seq [lit (asc '')'')]) (cur', g(3 \<mapsto> between (B, x) cur')))
                  (star_ends False any_char ([] @ B, x)))"
    by (simp add: url_re_def comp_def)
  then show ?thesis using url_first[of "[]" x g B x] by simp
qed

lemma ms_Seq_Cls:
  "ms (Seq (Cls P) r) ((B, x), g)
     = (case x of [] \<Rightarrow> [] | c # s \<Rightarrow> if P c then ms r ((c # B, s), g) else [])"
  by (cases x) simp_all

lemma link_close_first:
  "(spec_link_close x = None \<longrightarrow> ms link_close_re ((B, x), g) = [])
   \<and> (\<forall>u rest. spec_link_close x = Some (u, rest) \<longrightarrow>
        (\<exists>B' ys. ms link_close_re ((B, x), g) = ((B', rest), g(3 \<mapsto> u)) # ys))"
proof -
  let ?o = "[93, 40] :: ustring"
  have lre: "link_close_re = Seq (lit ?o) url_re" by (simp add: link_close_re_def)
  have l2: "length ?o = 2" by simp
  have eq: "ms link_close_re ((B, x), g)
          = (if take 2 x = ?o then ms url_re ((40 # 93 # B, drop 2 x), g) else [])"
    unfolding lre ms_Seq_lit_if l2 by simp
  have sc: "spec_link_close x = (if take 2 x = ?o then spec_url_scan [] (drop 2 x) else None)"
    by (simp add: spec_link_close_def)
  show ?thesis
    unfolding eq sc using ms_url_re[of "drop 2 x" "40 # 93 # B" g] by simp
qed

lemma title_first:
  "(spec_title_scan acc x = None \<longrightarrow>
      concat (map (\<lambda>cur'. ms link_close_re (cur', g(2 \<mapsto> between (B, x0) cur')))
                  (star_ends False any_char (acc @ B, x))) = [])
   \<and> (\<forall>t u rest. spec_title_scan acc x = Some (t, u, rest) \<longrightarrow>
      (\<exists>B' ys.
         concat (map (\<lambda>cur'. ms link_close_re (cur', g(2 \<mapsto> between (B, x0) cur')))
                     (star_ends False any_char (acc @ B, x))) = ((B', rest), g(2 \<mapsto> t, 3 \<mapsto> u)) # ys))"
proof (induction x arbitrary: acc)
  case Nil
  have "ms link_close_re ((acc @ B, []), g') = []" for g'
    using link_close_first[of "[]" "acc @ B" g'] by (simp add: spec_link_close_def)
  then show ?case by simp
next
  case (Cons c r)
  let ?g = "g(2 \<mapsto> between (B, x0) (acc @ B, c # r))"
  let ?rest = "concat (map (\<lambda>cur'. ms link_close_re (cur', g(2 \<mapsto> between (B, x0) cur')))
                  (star_ends False any_char (c # acc @ B, r)))"
  have g2: "?g = g(2 \<mapsto> rev acc)"
    using between_rev[of B x0 "rev acc" "c # r"] by simp
  have step: "concat (map (\<lambda>cur'. ms link_close_re (cur', g(2 \<mapsto> between (B, x0) cur')))
                  (star_ends False any_char (acc @ B, c # r)))
            = ms link_close_re ((acc @ B, c # r), ?g) @ ?rest"
    by (simp add: any_char_def)
  show ?case
  proof (cases "spec_link_close (c # r)")
    case (Some pr)
    obtain u rest where pr: "pr = (u, rest)" by (cases pr)
    obtain B' ys where "ms link_close_re ((acc @ B, c # r), ?g) = ((B', rest), ?g(3 \<mapsto> u)) # ys"
      using link_close_first[of "c # r" "acc @ B" ?g] Some pr by blast
    then show ?thesis
      unfolding step using Some pr g2 by auto
  next
    case None
    have c0: "ms link_close_re ((acc @ B, c # r), ?g) = []"
      using link_close_first[of "c # r" "acc @ B" ?g] None by blast
    have sl: "spec_title_scan acc (c # r) = spec_title_scan (c # acc) r"
      using None by simp
    have st: "concat (map (\<lambda>cur'. ms link_close_re (cur', g(2 \<mapsto> between (B, x0) cur')))
                  (star_ends False any_char (acc @ B, c # r))) = ?rest"
      unfolding step using c0 by simp
    show ?thesis
      unfolding sl st by (rule Cons.IH[of "c # acc", unfolded append_Cons])
  qed
qed

lemma ms_title_re:
  "(spec_title_scan [] x = None \<longrightarrow> ms title_re ((B, x), g) = [])
   \<and> (\<forall>t u rest. spec_title_scan [] x = Some (t, u, rest) \<longrightarrow>
        (\<exists>B' ys. ms title_re ((B, x), g) = ((B', rest), g(2 \<mapsto> t, 3 \<mapsto> u)) # ys))"
proof -
  have "ms title_re ((B, x), g)
          = concat (map (\<lambda>cur'. ms link_close_re (cur', g(2 \<mapsto> between (B, x) cur')))
                  (star_ends False any_char ([] @ B, x)))"
    by (simp add: title_re_def comp_def)
  then show ?thesis using title_first[of "[]" x g B x] by simp
qed

lemma take_numeral_Cons:
  "(take (numeral k) y = c # L) = (\<exists>y'. y = c # y' \<and> take (pred_numeral k) y' = L)"
  by (cases y) auto

lemma take_1_Cons: "(take (Suc 0) y = [c]) = (\<exists>y'. y = c # y')"
  by (cases y) auto

lemma take5:
  "(take 5 y = [45, 45, 62, 10, 91])
     = (take 3 y = [45, 45, 62] \<and> take 1 (drop 3 y) = [10] \<and> take 1 (drop 4 y) = [91::nat])"
  by (auto simp: take_numeral_Cons take_1_Cons)

lemma comment_close_first:
  "(spec_comment_close U x = None \<longrightarrow> ms (comment_close_re U) ((B, x), g) = [])
   \<and> (\<forall>t u rest. spec_comment_close U x = Some (t, u, rest) \<longrightarrow>
        (\<exists>B' ys. ms (comment_close_re U) ((B, x), g) = ((B', rest), g(2 \<mapsto> t, 3 \<mapsto> u)) # ys))"
proof -
  have cre: "comment_close_re U
      = Seq (Cls (py_isspace U)) (Seq (lit [45, 45, 62]) (Seq (lit [10]) (Seq (lit [91]) title_re)))"
    by (simp add: comment_close_re_def)
  have l3: "length [45, 45, 62::nat] = 3" and l1a: "length [10::nat] = 1" and l1b: "length [91::nat] = 1"
    by simp_all
  have eq: "ms (comment_close_re U) ((B, x), g)
      = (case x of
           [] \<Rightarrow> []
         | w # y \<Rightarrow> if py_isspace U w \<and> take 5 y = [45, 45, 62, 10, 91]
                    then ms title_re ((91 # 10 # 62 # 45 # 45 # w # B, drop 5 y), g) else [])"
    unfolding cre ms_Seq_Cls ms_Seq_lit_if l3 l1a l1b by (simp add: take5 split: list.splits)
  have sc: "spec_comment_close U x
      = (case x of
           [] \<Rightarrow> None
         | w # y \<Rightarrow> if py_isspace U w \<and> take 5 y = [45, 45, 62, 10, 91]
                    then spec_title_scan [] (drop 5 y) else None)"
    by (cases x) (simp_all add: spec_comment_close_def)
  show ?thesis
  proof (cases x)
    case Nil
    then show ?thesis unfolding eq sc by simp
  next
    case (Cons w y)
    then show ?thesis
      unfolding eq sc
      using ms_title_re[of "drop 5 y" "91 # 10 # 62 # 45 # 45 # w # B" g] by simp
  qed
qed


lemma icon_first:
  "(spec_icon_scan U acc x = None \<longrightarrow>
      concat (map (\<lambda>cur'. ms (comment_close_re U) (cur', g(1 \<mapsto> between (B, x0) cur')))
                  (star_ends False (\<lambda>c. c \<noteq> 62) (acc @ B, x))) = [])
   \<and> (\<forall>i t u rest. spec_icon_scan U acc x = Some (i, t, u, rest) \<longrightarrow>
      (\<exists>B' ys.
         concat (map (\<lambda>cur'. ms (comment_close_re U) (cur', g(1 \<mapsto> between (B, x0) cur')))
                     (star_ends False (\<lambda>c. c \<noteq> 62) (acc @ B, x)))
           = ((B', rest), g(1 \<mapsto> i, 2 \<mapsto> t, 3 \<mapsto> u)) # ys))"
proof (induction x arbitrary: acc)
  case Nil
  have "ms (comment_close_re U) ((acc @ B, []), g') = []" for g'
    using comment_close_first[of U "[]" "acc @ B" g'] by (simp add: spec_comment_close_def)
  then show ?case by simp
next
  case (Cons c r)
  let ?K = "\<lambda>cur'. ms (comment_close_re U) (cur', g(1 \<mapsto> between (B, x0) cur'))"
  let ?g = "g(1 \<mapsto> between (B, x0) (acc @ B, c # r))"
  have b: "between (B, x0) (acc @ B, s') = rev acc" for s'
    using between_rev[of B x0 "rev acc" s'] by simp
  have g1: "?g = g(1 \<mapsto> rev acc)"
    unfolding b ..
  have step: "concat (map ?K (star_ends False (\<lambda>c. c \<noteq> 62) (acc @ B, c # r)))
            = ms (comment_close_re U) ((acc @ B, c # r), ?g)
              @ (if c = 62 then [] else concat (map ?K (star_ends False (\<lambda>c. c \<noteq> 62) (c # acc @ B, r))))"
    by simp
  show ?case
  proof (cases "spec_comment_close U (c # r)")
    case (Some pr)
    obtain t u rest where pr: "pr = (t, u, rest)" by (cases pr)
    obtain B' ys where F1: "ms (comment_close_re U) ((acc @ B, c # r), ?g)
                          = ((B', rest), ?g(2 \<mapsto> t, 3 \<mapsto> u)) # ys"
      using comment_close_first[of U "c # r" "acc @ B" ?g] Some pr by blast
    have F2: "spec_icon_scan U acc (c # r) = Some (rev acc, t, u, rest)"
      using Some pr by simp
    show ?thesis
      unfolding step F1 F2
    proof (intro conjI impI allI)
      fix i t' u' rest' assume "Some (rev acc, t, u, rest) = Some (i, t', u', rest')"
      then have "i = rev acc" "t' = t" "u' = u" "rest' = rest" by simp_all
      then show "\<exists>B'a ysa. (((B', rest), ?g(2 \<mapsto> t, 3 \<mapsto> u)) # ys)
              @ (if c = 62 then [] else concat (map ?K (star_ends False (\<lambda>c. c \<noteq> 62) (c # acc @ B, r))))
              = ((B'a, rest'), g(1 \<mapsto> i, 2 \<mapsto> t', 3 \<mapsto> u')) # ysa"
        unfolding g1 by simp
    qed simp
  next
    case None
    have c0: "ms (comment_close_re U) ((acc @ B, c # r), ?g) = []"
      using comment_close_first[of U "c # r" "acc @ B" ?g] None by blast
    show ?thesis
    proof (cases "c = 62")
      case True
      then show ?thesis unfolding step using None c0 by simp
    next
      case False
      have sl: "spec_icon_scan U acc (c # r) = spec_icon_scan U (c # acc) r"
        using None False by simp
      have st: "concat (map ?K (star_ends False (\<lambda>c. c \<noteq> 62) (acc @ B, c # r)))
                  = concat (map ?K (star_ends False (\<lambda>c. c \<noteq> 62) (c # acc @ B, r)))"
        unfolding step using c0 False by simp
      show ?thesis
        unfolding sl st by (rule Cons.IH[of "c # acc", unfolded append_Cons])
    qed
  qed
qed

lemma ms_card_pattern:
  "(spec_card_at U x = None \<longrightarrow> ms (card_pattern U) ((b, x), g) = [])
   \<and> (\<forall>i t u rest. spec_card_at U x = Some (i, t, u, rest) \<longrightarrow>
        (\<exists>B' ys. ms (card_pattern U) ((b, x), g) = ((B', rest), g(1 \<mapsto> i, 2 \<mapsto> t, 3 \<mapsto> u)) # ys))"
proof -
  let ?o = "[60, 33, 45, 45] :: ustring"
  let ?nc = "\<lambda>c::uchar. c \<noteq> 62"
  have cp: "card_pattern U = Seq (lit ?o) (Seq (Cls (py_isspace U))
                      (Seq (Grp 1 (plus_re False ?nc)) (comment_close_re U)))"
    by (simp add: card_pattern_parts)
  have l4: "length ?o = 4" by simp
  have icon: "ms (Seq (Grp 1 (plus_re False ?nc)) (comment_close_re U)) ((B, y), g)
      = (case y of
           [] \<Rightarrow> []
         | e # r \<Rightarrow> if e \<noteq> 62
             then concat (map (\<lambda>cur'. ms (comment_close_re U) (cur', g(1 \<mapsto> between (B, e # r) cur')))
                     (star_ends False ?nc ([e] @ B, r)))
             else [])" for B y
    by (cases y) (simp_all add: plus_re_def comp_def)
  have eq: "ms (card_pattern U) ((b, x), g)
      = (if take 4 x = ?o then
           (case drop 4 x of
              [] \<Rightarrow> []
            | w # y \<Rightarrow> if py_isspace U w
                then ms (Seq (Grp 1 (plus_re False ?nc)) (comment_close_re U)) ((w # 45 # 45 # 33 # 60 # b, y), g)
                else [])
         else [])"
    unfolding cp ms_Seq_lit_if l4 ms_Seq_Cls by (cases "drop 4 x") simp_all
  have sc: "spec_card_at U x
      = (if take 4 x = ?o then
           (case drop 4 x of
              w # e # r \<Rightarrow> if py_isspace U w \<and> e \<noteq> 62 then spec_icon_scan U [e] r else None
            | _ \<Rightarrow> None)
         else None)"
    by (simp add: spec_card_at_def)
  show ?thesis
  proof (cases "take 4 x = ?o")
    case False
    then show ?thesis unfolding eq sc by simp
  next
    case True
    show ?thesis
    proof (cases "drop 4 x")
      case Nil
      then show ?thesis unfolding eq sc using True by simp
    next
      case (Cons w y)
      show ?thesis
      proof (cases y)
        case Nil
        then show ?thesis unfolding eq sc icon using True Cons by simp
      next
        case (Cons e r)
        show ?thesis
        proof (cases "py_isspace U w \<and> e \<noteq> 62")
          case False
          then show ?thesis
            unfolding eq sc icon using True \<open>drop 4 x = w # y\<close> Cons by auto
        next
          case T: True
          have m: "ms (card_pattern U) ((b, x), g)
                 = concat (map (\<lambda>cur'. ms (comment_close_re U)
                                  (cur', g(1 \<mapsto> between (w # 45 # 45 # 33 # 60 # b, e # r) cur')))
                     (star_ends False ?nc ([e] @ w # 45 # 45 # 33 # 60 # b, r)))"
            unfolding eq icon using True \<open>drop 4 x = w # y\<close> Cons T by simp
          have s: "spec_card_at U x = spec_icon_scan U [e] r"
            unfolding sc using True \<open>drop 4 x = w # y\<close> Cons T by simp
          show ?thesis
            unfolding m s
            by (rule icon_first[of U "[e]" r g "w # 45 # 45 # 33 # 60 # b" "e # r"])
        qed
      qed
    qed
  qed
qed

lemma first_match_card_None:
  "spec_card_at U x = None \<Longrightarrow> first_match (card_pattern U) False (b, x) = None"
  using ms_card_pattern[of U x b Map.empty] by (simp add: first_match_None)

lemma first_match_card_Some:
  "spec_card_at U x = Some (i, t, u, rest) \<Longrightarrow>
   \<exists>B'. first_match (card_pattern U) False (b, x)
           = Some ((B', rest), Map.empty(1 \<mapsto> i, 2 \<mapsto> t, 3 \<mapsto> u))"
  using ms_card_pattern[of U x b Map.empty] by (auto simp: first_match_def)

lemma replace_with_card_resolve:
  "m_groups m = Map.empty(1 \<mapsto> i, 2 \<mapsto> t, 3 \<mapsto> u) \<Longrightarrow>
   replace_with_card U m = Inr (card (py_strip U t) (py_strip U u) (spec_resolve U (py_strip U i)))"
proof -
  assume g: "m_groups m = Map.empty(1 \<mapsto> i, 2 \<mapsto> t, 3 \<mapsto> u)"
  have gr: "group m 1 = i" "group m 2 = t" "group m 3 = u"
    using g by (simp_all add: group_def)
  have "(k \<in> set lower_keys) = (map_of icon_url_mapping k \<noteq> None)" for k
    unfolding lower_keys_def by (simp add: map_of_eq_None_iff)
  then show ?thesis
    unfolding replace_with_card_def gr Let_def spec_resolve_def
    by (cases "map_of icon_url_mapping (py_lower U (py_strip U i))") simp_all
qed

lemma sub_from_e_card:
  "sub_from_e (card_pattern U) (replace_with_card U) False (b, s) = Inr (spec_card_pass U s)"
proof (induction U s arbitrary: b rule: spec_card_pass.induct)
  case (1 U)
  have "spec_card_at U [] = None" by (simp add: spec_card_at_def)
  then show ?case
    by (simp add: sub_from_e_Nil first_match_card_None)
next
  case (2 U c s)
  show ?case
  proof (cases "spec_card_at U (c # s)")
    case None
    then show ?thesis
      using 2(1)[OF None, of "c # b"]
      by (simp add: sub_from_e_skip first_match_card_None)
  next
    case (Some res)
    obtain i t u rest where res: "res = (i, t, u, rest)" by (cases res)
    obtain B' where fm: "first_match (card_pattern U) False (b, c # s)
                           = Some ((B', rest), Map.empty(1 \<mapsto> i, 2 \<mapsto> t, 3 \<mapsto> u))"
      using first_match_card_Some[of U "c # s" i t u rest b] Some res by blast
    have ne: "rest \<noteq> c # s" using spec_card_at_length[of U "c # s" i t u rest] Some res by auto
    have rp: "replace_with_card U (mk_match (b, c # s) ((B', rest), Map.empty(1 \<mapsto> i, 2 \<mapsto> t, 3 \<mapsto> u)))
            = Inr (card (py_strip U t) (py_strip U u) (spec_resolve U (py_strip U i)))"
      by (rule replace_with_card_resolve) (simp add: mk_match_def)
    show ?thesis
      using 2(2)[OF Some res[symmetric] refl refl, of B'] Some res ne
      by (simp add: sub_from_e_match[where repl="replace_with_card U", OF fm rp])
  qed
qed

lemma replace_url_to_card_pass: "replace_url_to_card U s = Inr (spec_card_pass U s)"
  by (simp add: replace_url_to_card_def py_sub_e_def sub_from_e_card)


subsection \<open>The shape of an annotated link\<close>

lemma spec_card_pass_prefix: "60 \<notin> set p \<Longrightarrow> spec_card_pass U (p @ x) = p @ spec_card_pass U x"
proof (induction p)
  case Nil
  show ?case by simp
next
  case (Cons c p)
  then have "spec_card_at U (c # p @ x) = None"
    by (simp add: spec_card_at_def)
  then show ?case using Cons by simp
qed

lemma spec_url_scan_url:
  "41 \<notin> set url \<Longrightarrow> spec_url_scan acc (url @ 41 # x) = Some (rev acc @ url, x)"
  by (induction url arbitrary: acc) simp_all

lemma spec_title_scan_title:
  assumes "93 \<notin> set title" "41 \<notin> set url"
  shows "spec_title_scan acc (title @ 93 # 40 # url @ 41 # x) = Some (rev acc @ title, url, x)"
  using assms(1)
proof (induction title arbitrary: acc)
  case Nil
  show ?case using spec_url_scan_url[OF assms(2), of "[]" x] by (simp add: spec_link_close_def)
next
  case (Cons c title)
  have "spec_link_close (c # title @ 93 # 40 # url @ 41 # x) = None"
    using Cons.prems by (simp add: spec_link_close_def)
  then show ?case using Cons.prems Cons.IH[of "c # acc"] by simp
qed

lemma icon_no_close:
  assumes "62 \<notin> set x2" "x2 \<noteq> []" "w2 \<noteq> 62"
  shows "spec_comment_close U (x2 @ w2 # 45 # 45 # 62 # t) = None"
proof -
  obtain a x3 where x2: "x2 = a # x3" using assms(2) by (cases x2) auto
  have "take 5 (x3 @ w2 # 45 # 45 # 62 # t) \<noteq> [45, 45, 62, 10, 91]"
  proof (cases x3)
    case Nil
    then show ?thesis by simp
  next
    case c1: (Cons b x4)
    show ?thesis
    proof (cases x4)
      case Nil
      then show ?thesis using c1 by simp
    next
      case c2: (Cons c x5)
      show ?thesis
      proof (cases x5)
        case Nil
        then show ?thesis using c1 c2 assms(3) by simp
      next
        case (Cons d x6)
        then have "d \<noteq> 62" using assms(1) x2 c1 c2 by auto
        then show ?thesis using c1 c2 Cons by simp
      qed
    qed
  qed
  then show ?thesis using x2 by (simp add: spec_comment_close_def)
qed

lemma spec_icon_scan_icon:
  assumes "62 \<notin> set icon" "w2 \<noteq> 62"
      and "spec_comment_close U (w2 # 45 # 45 # 62 # T) = Some (t, u, rest)"
  shows "spec_icon_scan U acc (icon @ w2 # 45 # 45 # 62 # T) = Some (rev acc @ icon, t, u, rest)"
  using assms(1)
proof (induction icon arbitrary: acc)
  case Nil
  show ?case using assms(3) by simp
next
  case (Cons c icon)
  have "spec_comment_close U ((c # icon) @ w2 # 45 # 45 # 62 # T) = None"
    using Cons.prems assms(2) by (intro icon_no_close) auto
  then show ?case using Cons.prems Cons.IH[of "c # acc"] by simp
qed

lemma space_not_gt: "py_isspace U w \<Longrightarrow> w \<noteq> 62"
  by (auto simp: py_isspace_def split: if_splits)

lemma spec_card_at_link:
  assumes "py_isspace U w1" "py_isspace U w2" "icon \<noteq> []" "62 \<notin> set icon"
      and "93 \<notin> set title" "41 \<notin> set url"
  shows "spec_card_at U (asc ''<!--'' @ [w1] @ icon @ [w2] @ asc ''-->'' @ [10] @ asc ''[''
            @ title @ asc ''](''  @ url @ asc '')'' @ x)
           = Some (icon, title, url, x)"
proof -
  obtain e icon' where icon: "icon = e # icon'" "e \<noteq> 62" "62 \<notin> set icon'"
    using assms(3,4) by (cases icon) auto
  let ?T = "10 # 91 # title @ 93 # 40 # url @ 41 # x"
  have "spec_comment_close U (w2 # 45 # 45 # 62 # ?T) = Some (title, url, x)"
    using assms(2) spec_title_scan_title[OF assms(5,6), of "[]" x]
    by (simp add: spec_comment_close_def)
  then have "spec_icon_scan U [e] (icon' @ w2 # 45 # 45 # 62 # ?T) = Some (rev [e] @ icon', title, url, x)"
    by (rule spec_icon_scan_icon[OF icon(3) space_not_gt[OF assms(2)]])
  then show ?thesis
    using assms(1) icon by (simp add: spec_card_at_def)
qed

lemma spec_card_pass_link:
  assumes "60 \<notin> set p" "py_isspace U w1" "py_isspace U w2" "icon \<noteq> []" "62 \<notin> set icon"
      and "93 \<notin> set title" "41 \<notin> set url"
  shows "spec_card_pass U (p @ asc ''<!--'' @ [w1] @ icon @ [w2] @ asc ''-->'' @ [10] @ asc ''[''
            @ title @ asc ''](''  @ url @ asc '')'' @ x)
           = p @ card (py_strip U title) (py_strip U url) (spec_resolve U (py_strip U icon))
               @ spec_card_pass U x"
proof -
  let ?L = "asc ''<!--'' @ [w1] @ icon @ [w2] @ asc ''-->'' @ [10] @ asc ''[''
            @ title @ asc ''](''  @ url @ asc '')'' @ x"
  have at: "spec_card_at U ?L = Some (icon, title, url, x)"
    by (rule spec_card_at_link[OF assms(2-7)])
  obtain c s where L: "?L = c # s" by simp
  have "spec_card_pass U ?L
          = card (py_strip U title) (py_strip U url) (spec_resolve U (py_strip U icon))
              @ spec_card_pass U x"
    unfolding L using at[unfolded L] by simp
  then show ?thesis
    using spec_card_pass_prefix[OF assms(1), of U ?L] by simp
qed

lemma spec_resolve_cases:
  "spec_resolve U i =
     (if py_lower U i = [30693, 20046] \<or> py_lower U i = asc ''zhihu'' then zhihu_icon
      else if py_lower U i = asc ''github'' then github_icon
      else i)"
  by (simp add: spec_resolve_def icon_url_mapping_def)


lemmas card_simps = replace_url_to_card_def py_sub_e_def sub_from_e.simps card_pattern_def
  replace_with_card_def card_def group_def lower_keys_def icon_url_mapping_def py_strip_def
  py_lower_def lower_char_def first_match_def mk_match_def between_def any_char_def
  py_isspace_def plus_re_def Let_def

text \<open>
  Claim C7, as amended. The converter never fails; it reads the document from left to right
  and writes every annotated link it meets as a card, going on after it, and keeps all other
  text. An annotated link is \<open><!--\<close>, one whitespace character, an icon, one whitespace
  character, \<open>-->\<close>, a line end, \<open>[\<close>, a title, \<open>](\<close>, a url and \<open>)\<close>, where the icon is the
  shortest non-empty text without \<open>>\<close> that is followed by the rest, the title the shortest
  text that is followed by \<open>](\<close> and a url, and the url the text up to the next \<open>)\<close>. So
  after text without \<open><\<close>, an annotated link whose icon has no \<open>>\<close>, whose title has no
  \<open>]\<close> and whose url has no \<open>)\<close> becomes the card of the trimmed title, the trimmed url and
  the resolved trimmed icon, and a text without \<open><\<close> is unchanged. The resolved icon is the
  value of the key that the lower-case icon equals, and the icon itself when it equals no
  key. (A comment without the two whitespace characters is not converted, and a url ends at
  its first \<open>)\<close>: see the counterexample below.)
\<close>

theorem replace_url_to_card_links:
  "replace_url_to_card U s = Inr (spec_card_pass U s)
   \<and> (60 \<notin> set p \<and> py_isspace U v \<and> py_isspace U w \<and> icon \<noteq> [] \<and> 62 \<notin> set icon
        \<and> 93 \<notin> set title \<and> 41 \<notin> set url \<longrightarrow>
      spec_card_pass U (p @ asc ''<!--'' @ [v] @ icon @ [w] @ asc ''-->'' @ [10] @ asc ''[''
            @ title @ asc ''](''  @ url @ asc '')'' @ x)
        = p @ card (py_strip U title) (py_strip U url) (spec_resolve U (py_strip U icon))
            @ spec_card_pass U x)
   \<and> (60 \<notin> set p \<longrightarrow> spec_card_pass U p = p)
   \<and> spec_resolve U i =
        (if py_lower U i = [30693, 20046] \<or> py_lower U i = asc ''zhihu'' then zhihu_icon
         else if py_lower U i = asc ''github'' then github_icon
         else i)
   \<and> replace_url_to_card U (asc ''<!-- github -->'' @ [10] @ asc ''[GitHub](https://github.com)'')
        = Inr (card (asc ''GitHub'') (asc ''https://github.com'') github_icon)"
proof (intro conjI impI)
  show "replace_url_to_card U s = Inr (spec_card_pass U s)"
    by (rule replace_url_to_card_pass)
next
  assume "60 \<notin> set p \<and> py_isspace U v \<and> py_isspace U w \<and> icon \<noteq> [] \<and> 62 \<notin> set icon
        \<and> 93 \<notin> set title \<and> 41 \<notin> set url"
  then show "spec_card_pass U (p @ asc ''<!--'' @ [v] @ icon @ [w] @ asc ''-->'' @ [10] @ asc ''[''
            @ title @ asc ''](''  @ url @ asc '')'' @ x)
        = p @ card (py_strip U title) (py_strip U url) (spec_resolve U (py_strip U icon))
            @ spec_card_pass U x"
    by (intro spec_card_pass_link) simp_all
next
  assume "60 \<notin> set p"
  then show "spec_card_pass U p = p"
    using spec_card_pass_prefix[of p U "[]"] by simp
next
  show "spec_resolve U i =
        (if py_lower U i = [30693, 20046] \<or> py_lower U i = asc ''zhihu'' then zhihu_icon
         else if py_lower U i = asc ''github'' then github_icon
         else i)"
    by (rule spec_resolve_cases)
next
  have sp: "py_isspace U 32" by (simp add: py_isspace_def)
  have st: "py_strip U (asc ''GitHub'') = asc ''GitHub''"
       "py_strip U (asc ''https://github.com'') = asc ''https://github.com''"
       "py_strip U (asc ''github'') = asc ''github''"
    by (simp_all add: py_strip_def py_isspace_def)
  have lo: "py_lower U (asc ''github'') = asc ''github''"
    by (rule py_lower_ascii) simp
  have rs: "spec_resolve U (asc ''github'') = github_icon"
    unfolding spec_resolve_cases lo by simp
  have "spec_card_pass U ([] @ asc ''<!--'' @ [32] @ asc ''github'' @ [32] @ asc ''-->'' @ [10] @ asc ''[''
            @ asc ''GitHub'' @ asc ''](''  @ asc ''https://github.com'' @ asc '')'' @ [])
        = [] @ card (py_strip U (asc ''GitHub'')) (py_strip U (asc ''https://github.com''))
                 (spec_resolve U (py_strip U (asc ''github''))) @ spec_card_pass U []"
    by (rule spec_card_pass_link) (simp_all add: sp)
  then have "spec_card_pass U (asc ''<!-- github -->'' @ [10] @ asc ''[GitHub](https://github.com)'')
        = card (asc ''GitHub'') (asc ''https://github.com'') github_icon"
    unfolding st rs by (simp del: spec_card_pass.simps add: spec_card_pass.simps(1))
  then show "replace_url_to_card U (asc ''<!-- github -->'' @ [10] @ asc ''[GitHub](https://github.com)'')
        = Inr (card (asc ''GitHub'') (asc ''https://github.com'') github_icon)"
    by (simp only: replace_url_to_card_pass)
qed

text \<open>
  Counterexample to claim C7 as stated. A comment without whitespace after \<open><!--\<close> and
  before \<open>-->\<close>, followed by a line end and a link, is not converted; and the card of a link
  whose url contains \<open>)\<close> carries only the beginning of the url.
\<close>

theorem replace_url_to_card_unspaced:
  "replace_url_to_card ucd_excerpt (asc ''<!--github-->'' @ [10] @ asc ''[GitHub](https://github.com)'')
     = Inr (asc ''<!--github-->'' @ [10] @ asc ''[GitHub](https://github.com)'')
   \<and> replace_url_to_card ucd_excerpt (asc ''<!-- x -->'' @ [10] @ asc ''[W](https://w.org/A_(b))'')
     = Inr (asc ''{% externalLinkCard '' @ [34] @ asc ''W'' @ [34] @ asc '' '' @ [34]
         @ asc ''https://w.org/A_(b'' @ [34] @ asc '' '' @ [34] @ asc ''x'' @ [34] @ asc '' %})'')"
  by (simp add: card_simps ucd_excerpt_def)

text \<open>
  The amended claim C7 at concrete documents: an alias in mixed case between other text, an
  icon url that is no alias with a title and a url to trim, and the ideograph alias.
\<close>

theorem replace_url_to_card_links_witness:
  "replace_url_to_card ucd_excerpt (asc ''see <!-- ZhiHu -->'' @ [10] @ asc ''[Q](https://z.cn)!'')
     = Inr (asc ''see '' @ card (asc ''Q'') (asc ''https://z.cn'') zhihu_icon @ asc ''!'')
   \<and> spec_card_pass ucd_excerpt (asc ''<!-- i.png -->'' @ [10] @ asc ''[ T ]( u )'')
     = card (asc ''T'') (asc ''u'') (asc ''i.png'')
   \<and> spec_resolve ucd_excerpt [30693, 20046] = zhihu_icon"
proof -
  let ?U = ucd_excerpt
  have lo: "py_lower ?U (asc ''ZhiHu'') = asc ''zhihu''" "py_lower ?U (asc ''i.png'') = asc ''i.png''"
           "py_lower ?U [30693, 20046] = [30693, 20046]"
    by (simp_all add: py_lower_def lower_char_def ucd_excerpt_def)
  have bang: "spec_card_pass ?U (asc ''!'') = asc ''!''"
    using replace_url_to_card_links[where U="?U" and s="[]" and p="asc ''!''" and v=32 and w=32
        and icon="asc ''ZhiHu''" and title="asc ''Q''" and url="asc ''https://z.cn''" and x="[]"
        and i="asc ''ZhiHu''"]
    by (simp add: py_isspace_def)
  have 1: "replace_url_to_card ?U (asc ''see <!-- ZhiHu -->'' @ [10] @ asc ''[Q](https://z.cn)!'')
     = Inr (asc ''see '' @ card (asc ''Q'') (asc ''https://z.cn'') zhihu_icon @ asc ''!'')"
    using replace_url_to_card_links[where U="?U"
        and s="asc ''see <!-- ZhiHu -->'' @ [10] @ asc ''[Q](https://z.cn)!''"
        and p="asc ''see ''" and v=32 and w=32
        and icon="asc ''ZhiHu''" and title="asc ''Q''" and url="asc ''https://z.cn''" and x="asc ''!''"
        and i="asc ''ZhiHu''"] bang lo
    by (simp add: py_isspace_def py_strip_def spec_card_pass.simps(1) del: spec_card_pass.simps)
  have 2: "spec_card_pass ?U (asc ''<!-- i.png -->'' @ [10] @ asc ''[ T ]( u )'')
     = card (asc ''T'') (asc ''u'') (asc ''i.png'')"
    using replace_url_to_card_links[where U="?U" and s="[]" and p="[]" and v=32 and w=32
        and icon="asc ''i.png''" and title="asc '' T ''" and url="asc '' u ''" and x="[]"
        and i="asc ''i.png''"] lo
    by (simp add: py_isspace_def py_strip_def spec_card_pass.simps(1) del: spec_card_pass.simps)
  have 3: "spec_resolve ?U [30693, 20046] = zhihu_icon"
    using replace_url_to_card_links[where U="?U" and s="[]" and p="[]" and v=32 and w=32
        and icon="asc ''i.png''" and title="asc '' T ''" and url="asc '' u ''" and x="[]"
        and i="[30693, 20046]"] lo
    by simp
  show ?thesis
    using 1 2 3 by (intro conjI)
qed

end
